theory Spec2Isabelle
  imports Main "HOL-Library.Word"
begin

section \<open>Counter callbacks (isl\_scan.c, lines 17--49)\<close>

text \<open>
  \<^verbatim>\<open>struct isl_counter { struct isl_scan_callback callback; isl_int count; isl_int max; }\<close>.
  The \<^verbatim>\<open>isl_int\<close> fields are arbitrary-precision integers, so they are \<open>int\<close>.
  The embedded \<^verbatim>\<open>callback\<close> member only holds the function pointer
  \<^verbatim>\<open>&increment_counter\<close>; it is represented by the constructor of the callback datatype
  further down.  The field \<^verbatim>\<open>max\<close> is called \<open>max_c\<close> here, since \<open>max\<close> is a HOL
  constant.
\<close>

record isl_counter =
  count :: int
  max_c :: int

type_synonym isl_vec = "int list"

text \<open>
  \<^verbatim>\<open>increment_counter\<close>: the count is advanced, the sample is handed to \<^verbatim>\<open>isl_vec_free\<close>
  (line 30), then the count is tested against the bound.  Nothing of the sample is read.
  The result is the return value, the updated counter and the vectors that the call has
  released with \<^verbatim>\<open>isl_vec_free\<close>, in the order of the calls.
\<close>

definition increment_counter :: "isl_counter \<Rightarrow> isl_vec \<Rightarrow> int \<times> isl_counter \<times> isl_vec list" where
  "increment_counter cnt sample =
     (let cnt1 = cnt\<lparr>count := count cnt + 1\<rparr>;
          released = [sample]
      in if max_c cnt1 = 0 \<or> count cnt1 < max_c cnt1 then (0, cnt1, released)
         else (- 1, cnt1, released))"

text \<open>\<^verbatim>\<open>increment_range\<close>: three updates of \<^verbatim>\<open>cnt->count\<close>, then the test, then the clamp.\<close>

definition increment_range :: "isl_counter \<Rightarrow> int \<Rightarrow> int \<Rightarrow> int \<times> isl_counter" where
  "increment_range cnt mn mx =
     (let cnt1 = cnt\<lparr>count := count cnt + mx\<rparr>;
          cnt2 = cnt1\<lparr>count := count cnt1 - mn\<rparr>;
          cnt3 = cnt2\<lparr>count := count cnt2 + 1\<rparr>
      in if max_c cnt3 = 0 \<or> count cnt3 < max_c cnt3 then (0, cnt3)
         else (- 1, cnt3\<lparr>count := max_c cnt3\<rparr>))"

section \<open>Interned identifiers (isl\_id.c)\<close>

subsection \<open>Data\<close>

text \<open>
  Objects live at addresses; a C pointer that may be \<^verbatim>\<open>NULL\<close> is a \<open>ptr option\<close>.
  \<^verbatim>\<open>struct isl_id\<close> (declared in a private header) has the fields the code of
  isl\_id.c reads and writes: \<^verbatim>\<open>ref\<close>, \<^verbatim>\<open>ctx\<close>, \<^verbatim>\<open>name\<close>, \<^verbatim>\<open>user\<close>, \<^verbatim>\<open>hash\<close> and
  \<^verbatim>\<open>free_user\<close>.  One context is modelled, so the back pointer \<^verbatim>\<open>id->ctx\<close> is left out:
  every identifier of the heap below belongs to the context that holds the heap.
  The field \<^verbatim>\<open>ref\<close> is a C \<^verbatim>\<open>int\<close>: a word of 32 bits that is read as a signed number
  (\<open>sint\<close>) and on which \<^verbatim>\<open>++\<close> and \<^verbatim>\<open>--\<close> wrap around.
  A function pointer is the number of the function it points to.
\<close>

type_synonym ptr = nat

record isl_id =
  id_ref :: "32 word"
  id_name :: "string option"
  id_user :: "ptr option"
  id_hash :: "32 word"
  id_free_user :: "nat option"

text \<open>\<^verbatim>\<open>struct isl_name_and_user { const char *name; void *user; }\<close>\<close>

record isl_name_and_user =
  nu_name :: "string option"
  nu_user :: "ptr option"

text \<open>
  Modelled from the spec: the hash table of the context (isl\_hash.c is not part of the
  sources at hand).  The spec describes a ``combined find-with-insert primitive whose slot
  is populated after allocation; on allocation failure the slot is vacated'', with
  collisions resolved ``by the underlying hash table via the equality predicate''.
  Accordingly a table is its element counter \<^verbatim>\<open>n\<close> and its occupied slots, each a stored
  hash with a data pointer, in the order in which a lookup meets them.  A slot whose data
  pointer is \<^verbatim>\<open>NULL\<close> is vacant and is not listed.
\<close>

record isl_hash_table =
  tbl_n :: int
  tbl_entries :: "(32 word \<times> ptr) list"

text \<open>
  What \<^verbatim>\<open>isl_hash_table_find\<close> returns: \<^verbatim>\<open>NULL\<close> (\<open>None\<close>), an occupied slot (its
  position), or with \<^verbatim>\<open>reserve\<close> a vacant slot that already carries the key's hash.
\<close>

datatype hash_entry = Occupied nat | Vacant "32 word"

text \<open>
  The context: its reference count, the identifier table, the heap cells that hold the
  allocated \<^verbatim>\<open>struct isl_id\<close> objects, the calls of \<^verbatim>\<open>free_user\<close> made so far (function
  and argument) and whether \<^verbatim>\<open>isl_die\<close> has reported an error.
\<close>

record isl_ctx =
  ctx_ref :: int
  id_table :: isl_hash_table
  ids :: "ptr \<rightharpoonup> isl_id"
  free_user_calls :: "(nat \<times> ptr option) list"
  ctx_error :: bool

text \<open>
  The hash primitives \<^verbatim>\<open>isl_hash_init\<close>, \<^verbatim>\<open>isl_hash_string\<close> and \<^verbatim>\<open>isl_hash_builtin\<close>
  come from a header that is not among the sources; they are parameters.
\<close>

record hash_ops =
  isl_hash_init :: "32 word"
  isl_hash_string :: "32 word \<Rightarrow> string \<Rightarrow> 32 word"
  isl_hash_builtin :: "32 word \<Rightarrow> ptr option \<Rightarrow> 32 word"

text \<open>
  What the allocator does during one call of \<^verbatim>\<open>isl_id_alloc\<close>: whether the table can
  hand out a slot (growing the table may fail), whether \<^verbatim>\<open>strdup\<close> succeeds, and the
  address \<^verbatim>\<open>calloc\<close> returns (\<open>None\<close> for \<^verbatim>\<open>NULL\<close>).
\<close>

record alloc_outcome =
  reserve_ok :: bool
  strdup_ok :: bool
  calloc_res :: "ptr option"

subsection \<open>Operations\<close>

text \<open>The getters for the user pointer and the name; each accepts \<^verbatim>\<open>NULL\<close>.  A dangling pointer has no defined result.\<close>

definition isl_id_get_user :: "isl_ctx \<Rightarrow> ptr option \<Rightarrow> ptr option option" where
  "isl_id_get_user c idp =
     (case idp of None \<Rightarrow> Some None
      | Some p \<Rightarrow> (case ids c p of None \<Rightarrow> None | Some r \<Rightarrow> Some (id_user r)))"

definition isl_id_get_name :: "isl_ctx \<Rightarrow> ptr option \<Rightarrow> string option option" where
  "isl_id_get_name c idp =
     (case idp of None \<Rightarrow> Some None
      | Some p \<Rightarrow> (case ids c p of None \<Rightarrow> None | Some r \<Rightarrow> Some (id_name r)))"

text \<open>
  The hash of a key, computed alike in \<^verbatim>\<open>id_alloc\<close> (lines 57--61) and in
  \<^verbatim>\<open>isl_id_alloc\<close> (lines 93--97): the name if there is one, the user pointer otherwise.
\<close>

definition key_hash :: "hash_ops \<Rightarrow> string option \<Rightarrow> ptr option \<Rightarrow> 32 word" where
  "key_hash h name user =
     (case name of Some s \<Rightarrow> isl_hash_string h (isl_hash_init h) s
      | None \<Rightarrow> isl_hash_builtin h (isl_hash_init h) user)"

text \<open>
  \<^verbatim>\<open>id_alloc\<close>: \<^verbatim>\<open>strdup\<close> of the name, \<^verbatim>\<open>calloc\<close> of the object (so \<^verbatim>\<open>free_user\<close> starts
  as \<^verbatim>\<open>NULL\<close>), a new reference to the context.  On each failure nothing is left behind.
\<close>

definition id_alloc ::
  "hash_ops \<Rightarrow> alloc_outcome \<Rightarrow> isl_ctx \<Rightarrow> string option \<Rightarrow> ptr option
     \<Rightarrow> ptr option \<times> isl_ctx" where
  "id_alloc h oc c name user =
     (if name \<noteq> None \<and> \<not> strdup_ok oc then (None, c)
      else (case calloc_res oc of
              None \<Rightarrow> (None, c)
            | Some p \<Rightarrow>
                (Some p,
                 c\<lparr>ctx_ref := ctx_ref c + 1,
                   ids := (ids c)(p \<mapsto>
                     \<lparr>id_ref = 1, id_name = name, id_user = user,
                      id_hash = key_hash h name user, id_free_user = None\<rparr>)\<rparr>)))"

text \<open>
  \<^verbatim>\<open>isl_id_has_name_and_user\<close>.  The last line calls \<^verbatim>\<open>strcmp\<close> on both names; with a
  \<^verbatim>\<open>NULL\<close> argument \<^verbatim>\<open>strcmp\<close> has no defined result, which is \<open>None\<close> here.
\<close>

definition isl_id_has_name_and_user :: "isl_id \<Rightarrow> isl_name_and_user \<Rightarrow> int option" where
  "isl_id_has_name_and_user idp nu =
     (if id_user idp \<noteq> nu_user nu then Some 0
      else if id_name idp = None \<and> nu_name nu = None then Some 1
      else (case (id_name idp, nu_name nu) of
              (Some a, Some b) \<Rightarrow> Some (if a = b then 1 else 0)
            | _ \<Rightarrow> None))"


text \<open>
  Modelled from the spec: the lookup of \<^verbatim>\<open>isl_hash_table_find\<close>.  The slots are met in
  order; the equality predicate is asked only where the stored hash is the key's hash; the
  first slot for which it answers nonzero is returned.  An undefined answer of the
  predicate makes the lookup undefined.
\<close>

fun find_from ::
  "(ptr \<Rightarrow> int option) \<Rightarrow> 32 word \<Rightarrow> (32 word \<times> ptr) list \<Rightarrow> nat \<Rightarrow> nat option option" where
  "find_from eq kh [] i = Some None"
| "find_from eq kh ((h, d) # es) i =
     (if h = kh
      then (case eq d of
              None \<Rightarrow> None
            | Some r \<Rightarrow> if r \<noteq> 0 then Some (Some i) else find_from eq kh es (Suc i))
      else find_from eq kh es (Suc i))"

text \<open>
  Modelled from the spec: \<^verbatim>\<open>isl_hash_table_find\<close> with its \<^verbatim>\<open>reserve\<close> flag.  Without a
  match and with \<^verbatim>\<open>reserve\<close>, a vacant slot is handed out and counted in \<^verbatim>\<open>n\<close> at once
  (the caller fills in the data pointer); when the table cannot provide one the result is
  \<^verbatim>\<open>NULL\<close> and the table is as before.
\<close>

definition isl_hash_table_find ::
  "isl_hash_table \<Rightarrow> 32 word \<Rightarrow> (ptr \<Rightarrow> int option) \<Rightarrow> bool \<Rightarrow> bool
     \<Rightarrow> (hash_entry option \<times> isl_hash_table) option" where
  "isl_hash_table_find tbl kh eq reserve can_reserve =
     (case find_from eq kh (tbl_entries tbl) 0 of
        None \<Rightarrow> None
      | Some (Some i) \<Rightarrow> Some (Some (Occupied i), tbl)
      | Some None \<Rightarrow>
          if \<not> reserve then Some (None, tbl)
          else if \<not> can_reserve then Some (None, tbl)
          else Some (Some (Vacant kh), tbl\<lparr>tbl_n := tbl_n tbl + 1\<rparr>))"


text \<open>
  \<^verbatim>\<open>isl_id_copy\<close>.  The result is the returned pointer and the context; \<open>None\<close> stands
  for a pointer to an object that no longer exists.
\<close>

definition isl_id_copy :: "isl_ctx \<Rightarrow> ptr option \<Rightarrow> (ptr option \<times> isl_ctx) option" where
  "isl_id_copy c idp =
     (case idp of
        None \<Rightarrow> Some (None, c)
      | Some p \<Rightarrow>
          (case ids c p of
             None \<Rightarrow> None
           | Some r \<Rightarrow>
               if sint (id_ref r) < 0 then Some (Some p, c)
               else Some (Some p, c\<lparr>ids := (ids c)(p \<mapsto> r\<lparr>id_ref := id_ref r + 1\<rparr>)\<rparr>)))"

text \<open>
  \<^verbatim>\<open>isl_id_alloc\<close>.  The predicate handed to the lookup reads the stored identifier
  through its pointer.  \<^verbatim>\<open>entry->data = id_alloc(...)\<close> fills the vacant slot when the
  result is not \<^verbatim>\<open>NULL\<close>; otherwise the slot stays vacant and \<^verbatim>\<open>n\<close> is decremented.
\<close>

definition isl_id_alloc ::
  "hash_ops \<Rightarrow> alloc_outcome \<Rightarrow> isl_ctx \<Rightarrow> string option \<Rightarrow> ptr option
     \<Rightarrow> (ptr option \<times> isl_ctx) option" where
  "isl_id_alloc h oc c name user =
     (let nu = \<lparr>nu_name = name, nu_user = user\<rparr>;
          idh = key_hash h name user;
          eq = (\<lambda>d. case ids c d of None \<Rightarrow> None
                     | Some r \<Rightarrow> isl_id_has_name_and_user r nu)
      in case isl_hash_table_find (id_table c) idh eq True (reserve_ok oc) of
           None \<Rightarrow> None
         | Some (None, tbl) \<Rightarrow> Some (None, c\<lparr>id_table := tbl\<rparr>)
         | Some (Some (Occupied i), tbl) \<Rightarrow>
             isl_id_copy (c\<lparr>id_table := tbl\<rparr>) (Some (snd (tbl_entries tbl ! i)))
         | Some (Some (Vacant kh), tbl) \<Rightarrow>
             (case id_alloc h oc (c\<lparr>id_table := tbl\<rparr>) name user of
                (Some p, c1) \<Rightarrow>
                  Some (Some p,
                        c1\<lparr>id_table := (id_table c1)
                             \<lparr>tbl_entries := tbl_entries (id_table c1) @ [(kh, p)]\<rparr>\<rparr>)
              | (None, c1) \<Rightarrow>
                  Some (None,
                        c1\<lparr>id_table := (id_table c1)\<lparr>tbl_n := tbl_n (id_table c1) - 1\<rparr>\<rparr>)))"

text \<open>\<^verbatim>\<open>isl_hash_id\<close>: the macro \<^verbatim>\<open>isl_hash_hash\<close> is a parameter.\<close>

definition isl_hash_id ::
  "(32 word \<Rightarrow> 32 word \<Rightarrow> 32 word) \<Rightarrow> isl_ctx \<Rightarrow> 32 word \<Rightarrow> ptr option \<Rightarrow> 32 word option" where
  "isl_hash_id isl_hash_hash c hash idp =
     (case idp of None \<Rightarrow> Some hash
      | Some p \<Rightarrow> (case ids c p of None \<Rightarrow> None
                   | Some r \<Rightarrow> Some (isl_hash_hash hash (id_hash r))))"

text \<open>\<^verbatim>\<open>isl_id_set_free_user\<close>\<close>

definition isl_id_set_free_user ::
  "isl_ctx \<Rightarrow> ptr option \<Rightarrow> nat option \<Rightarrow> (ptr option \<times> isl_ctx) option" where
  "isl_id_set_free_user c idp free_user =
     (case idp of
        None \<Rightarrow> Some (None, c)
      | Some p \<Rightarrow>
          (case ids c p of
             None \<Rightarrow> None
           | Some r \<Rightarrow> Some (Some p, c\<lparr>ids := (ids c)(p \<mapsto> r\<lparr>id_free_user := free_user\<rparr>)\<rparr>)))"



text \<open>
  The lookup that \<^verbatim>\<open>isl_id_alloc\<close> makes for a key, before any slot is reserved: the
  slots of the table are met in order and \<^verbatim>\<open>isl_id_has_name_and_user\<close> is asked about the
  stored identifier wherever the hashes agree.  \<open>None\<close> is the undefined lookup,
  \<open>Some None\<close> a miss and \<open>Some (Some i)\<close> a hit in slot \<open>i\<close>.
\<close>

definition lookup_key :: "hash_ops \<Rightarrow> isl_ctx \<Rightarrow> string option \<Rightarrow> ptr option \<Rightarrow> nat option option" where
  "lookup_key h c name user =
     find_from (\<lambda>d. case ids c d of None \<Rightarrow> None
                     | Some r \<Rightarrow> isl_id_has_name_and_user r \<lparr>nu_name = name, nu_user = user\<rparr>)
       (key_hash h name user) (tbl_entries (id_table c)) 0"

text \<open>The object that \<^verbatim>\<open>id_alloc\<close> initialises (lines 51--61).\<close>

definition new_id :: "hash_ops \<Rightarrow> string option \<Rightarrow> ptr option \<Rightarrow> isl_id" where
  "new_id h name user =
     \<lparr>id_ref = 1, id_name = name, id_user = user,
      id_hash = key_hash h name user, id_free_user = None\<rparr>"

subsection \<open>The state of the table\<close>







section \<open>The enumerator (isl\_scan.c, lines 51--304)\<close>

subsection \<open>Data\<close>

text \<open>\<^verbatim>\<open>enum isl_lp_result\<close>, the result of a minimisation on the tableau.\<close>

datatype isl_lp_result = isl_lp_error | isl_lp_ok | isl_lp_unbounded | isl_lp_empty

type_synonym isl_mat = "int list list"

text \<open>
  \<^verbatim>\<open>struct isl_scan_callback\<close> holds one function pointer \<^verbatim>\<open>add\<close>; a concrete callback
  extends the struct by its own state.  \<open>Counter\<close> is a \<^verbatim>\<open>struct isl_counter\<close>, whose
  \<^verbatim>\<open>add\<close> is \<^verbatim>\<open>increment_counter\<close> (a static function, so no other callback has it);
  \<open>User f u\<close> is any other callback, with its function and its state.
\<close>

datatype 'u isl_scan_callback =
    Counter isl_counter
  | User "'u \<Rightarrow> isl_vec \<Rightarrow> int \<times> 'u" 'u

text \<open>
  The call \<^verbatim>\<open>callback->add(callback, sample)\<close>: the return value and the callback.  The
  sample belongs to the callback from here on; the enumerator does not look at it again.
\<close>

definition callback_add :: "'u isl_scan_callback \<Rightarrow> isl_vec \<Rightarrow> int \<times> 'u isl_scan_callback" where
  "callback_add cb sample =
     (case cb of
        Counter cnt \<Rightarrow> (case increment_counter cnt sample of (r, cnt1, released) \<Rightarrow> (r, Counter cnt1))
      | User f u \<Rightarrow> (case f u sample of (r, u1) \<Rightarrow> (r, User f u1)))"

text \<open>
  The test \<^verbatim>\<open>callback->add == increment_counter\<close> together with the cast to
  \<^verbatim>\<open>struct isl_counter *\<close> that \<^verbatim>\<open>increment_range\<close> makes.
\<close>

definition counter_of :: "'u isl_scan_callback \<Rightarrow> isl_counter option" where
  "counter_of cb = (case cb of Counter cnt \<Rightarrow> Some cnt | User f u \<Rightarrow> None)"

text \<open>
  The tableau, the basis reduction, the basic sets and the allocator are not part of the
  sources at hand; they are parameters of the enumerator.  A function that returns a
  pointer returns an \<open>option\<close> (\<open>None\<close> for \<^verbatim>\<open>NULL\<close>); a function that works in place and
  returns a negative number on failure returns the new tableau, or \<open>None\<close> on failure.
  \<^verbatim>\<open>isl_tab_min\<close> gets the tableau, the objective row, the denominator and the old
  content of \<^verbatim>\<open>*opt\<close>, and returns its result, the new content of \<^verbatim>\<open>*opt\<close> and the
  tableau.  \<open>alloc_ok\<close> tells for each allocation of the enumerator whether it succeeds
  (vectors start with zero entries); \<open>uninit_snap\<close> is what a cell of the snapshot array
  holds before it is written.  \<open>tab_set_basis\<close> and \<open>tab_basis\<close> write and read the
  field \<^verbatim>\<open>tab->basis\<close>; \<open>ctx_one\<close> and \<open>ctx_zero\<close> are \<^verbatim>\<open>ctx->one\<close> and \<^verbatim>\<open>ctx->zero\<close>.
\<close>

datatype alloc_site = Alloc_min | Alloc_max | Alloc_snap | Alloc_sample

record ('bset, 'tab, 'snap) scan_env =
  alloc_ok :: "alloc_site \<Rightarrow> bool"
  uninit_snap :: 'snap
  ctx_one :: int
  ctx_zero :: int
  isl_basic_set_total_dim :: "'bset \<Rightarrow> nat"
  isl_basic_set_copy :: "'bset \<Rightarrow> 'bset option"
  isl_tab_from_basic_set :: "'bset \<Rightarrow> 'tab option"
  isl_tab_extend_cons :: "'tab \<Rightarrow> nat \<Rightarrow> 'tab option"
  isl_mat_identity :: "nat \<Rightarrow> isl_mat option"
  tab_set_basis :: "'tab \<Rightarrow> isl_mat option \<Rightarrow> 'tab"
  tab_basis :: "'tab \<Rightarrow> isl_mat option"
  isl_tab_compute_reduced_basis :: "'tab \<Rightarrow> 'tab option"
  isl_tab_min :: "'tab \<Rightarrow> int list \<Rightarrow> int \<Rightarrow> int \<Rightarrow> isl_lp_result \<times> int \<times> 'tab"
  isl_tab_snap :: "'tab \<Rightarrow> 'snap"
  isl_tab_rollback :: "'tab \<Rightarrow> 'snap \<Rightarrow> 'tab option"
  isl_tab_add_valid_eq :: "'tab \<Rightarrow> int list \<Rightarrow> 'tab option"
  isl_tab_get_sample_value :: "'tab \<Rightarrow> isl_vec option"

text \<open>
  The operations on sets that \<^verbatim>\<open>isl_set_scan\<close> uses; \<open>set_p\<close> is the array
  \<^verbatim>\<open>set->p[0 .. set->n - 1]\<close>.
\<close>

record ('bset, 'set) set_env =
  isl_set_copy :: "'set \<Rightarrow> 'set option"
  isl_set_cow :: "'set option \<Rightarrow> 'set option"
  isl_set_make_disjoint :: "'set option \<Rightarrow> 'set option"
  isl_set_compute_divs :: "'set option \<Rightarrow> 'set option"
  set_p :: "'set \<Rightarrow> 'bset list"

text \<open>
  The local variables of \<^verbatim>\<open>isl_basic_set_scan\<close> that live across iterations of its loop,
  and the callback, which the loop updates through its pointer.
\<close>

record ('tab, 'snap, 'u) scan_state =
  st_tab :: 'tab
  st_B :: isl_mat
  st_min :: isl_vec
  st_max :: isl_vec
  st_snap :: "'snap list"
  st_level :: int
  st_init :: bool
  st_callback :: "'u isl_scan_callback"

text \<open>How an iteration of the loop ends: with the next iteration or at the label \<^verbatim>\<open>error\<close>.\<close>

datatype 's flow = Continue 's | Goto_error 's

subsection \<open>Operations\<close>

text \<open>\<^verbatim>\<open>add_solution\<close> (the tableau is never \<^verbatim>\<open>NULL\<close> where it is called).\<close>

definition add_solution ::
  "('bset, 'tab, 'snap) scan_env \<Rightarrow> 'tab \<Rightarrow> 'u isl_scan_callback
     \<Rightarrow> int \<times> 'u isl_scan_callback" where
  "add_solution env tab callback =
     (case isl_tab_get_sample_value env tab of
        None \<Rightarrow> (- 1, callback)
      | Some sample \<Rightarrow> callback_add callback sample)"

text \<open>\<^verbatim>\<open>scan_0D\<close>: a vector of length one, set to \<open>1\<close>, handed to the callback.\<close>

definition scan_0D ::
  "('bset, 'tab, 'snap) scan_env \<Rightarrow> 'u isl_scan_callback \<Rightarrow> int \<times> 'u isl_scan_callback" where
  "scan_0D env callback =
     (if \<not> alloc_ok env Alloc_sample then (- 1, callback)
      else callback_add callback ((replicate 1 0)[0 := 1]))"

text \<open>
  \<^verbatim>\<open>isl_seq_neg(row + off, row + off, len)\<close>: the \<open>len\<close> entries from position \<open>off\<close> on
  are negated in place.
\<close>

definition isl_seq_neg_at :: "int list \<Rightarrow> nat \<Rightarrow> nat \<Rightarrow> int list" where
  "isl_seq_neg_at row off len =
     take off row @ map uminus (take len (drop off row)) @ drop (off + len) row"

text \<open>
  Lines 148--165, the branch \<^verbatim>\<open>if (init)\<close>: the two minimisations along the basis row of
  the level, and the snapshot.  The result is \<open>Inl\<close> for \<^verbatim>\<open>goto error\<close>, otherwise the
  flag \<^verbatim>\<open>empty\<close> and the state.  The row \<^verbatim>\<open>B->row[1 + level]\<close> is negated in place before
  the second minimisation and negated back after it.
\<close>

definition scan_range ::
  "('bset, 'tab, 'snap) scan_env \<Rightarrow> nat \<Rightarrow> ('tab, 'snap, 'u) scan_state
     \<Rightarrow> ('tab, 'snap, 'u) scan_state + bool \<times> ('tab, 'snap, 'u) scan_state" where
  "scan_range env dim st =
     (let l = nat (st_level st);
          row = st_B st ! (1 + l)
      in case isl_tab_min env (st_tab st) row (ctx_one env) (st_min st ! l) of
           (res, mn, tab1) \<Rightarrow>
             let st1 = st\<lparr>st_tab := tab1, st_min := (st_min st)[l := mn]\<rparr>;
                 empty1 = (res = isl_lp_empty)
             in if res = isl_lp_error \<or> res = isl_lp_unbounded then Inl st1
                else
                  let row_neg = isl_seq_neg_at row 1 dim
                  in case isl_tab_min env tab1 row_neg (ctx_one env) (st_max st ! l) of
                       (res2, mx, tab2) \<Rightarrow>
                         let row_back = isl_seq_neg_at row_neg 1 dim;
                             st2 = st1\<lparr>st_tab := tab2,
                                       st_B := (st_B st)[1 + l := row_back],
                                       st_max := (st_max st)[l := - mx]\<rparr>;
                             empty2 = (if res2 = isl_lp_empty then True else empty1)
                         in if res2 = isl_lp_error \<or> res2 = isl_lp_unbounded then Inl st2
                            else Inr (empty2,
                                      st2\<lparr>st_snap := (st_snap st)[l := isl_tab_snap env tab2]\<rparr>))"

text \<open>
  Lines 170--175 and again 181--186: one level up, \<^verbatim>\<open>init = 0\<close>, and the tableau rolled
  back to the snapshot of the level that is now current, if there is one.
\<close>

definition scan_backtrack ::
  "('bset, 'tab, 'snap) scan_env \<Rightarrow> ('tab, 'snap, 'u) scan_state
     \<Rightarrow> ('tab, 'snap, 'u) scan_state flow" where
  "scan_backtrack env st =
     (let st1 = st\<lparr>st_level := st_level st - 1, st_init := False\<rparr>
      in if 0 \<le> st_level st1
         then (case isl_tab_rollback env (st_tab st1) (st_snap st1 ! nat (st_level st1)) of
                 None \<Rightarrow> Goto_error st1
               | Some tab1 \<Rightarrow> Continue (st1\<lparr>st_tab := tab1\<rparr>))
         else Continue st1)"

text \<open>
  Lines 188--201: the coordinate of the level is fixed to \<^verbatim>\<open>min->el[level]\<close> by an
  equality, whose constant is written into column \<open>0\<close> of the basis row and reset to
  \<open>0\<close> afterwards; then either the next level is entered or, at the last level, the
  sample is handed to the callback and the tableau rolled back to the snapshot of the
  level.
\<close>

definition scan_fix ::
  "('bset, 'tab, 'snap) scan_env \<Rightarrow> nat \<Rightarrow> ('tab, 'snap, 'u) scan_state
     \<Rightarrow> ('tab, 'snap, 'u) scan_state flow" where
  "scan_fix env dim st =
     (let l = nat (st_level st);
          row = (st_B st ! (1 + l))[0 := - (st_min st ! l)]
      in case isl_tab_add_valid_eq env (st_tab st) row of
           None \<Rightarrow> Goto_error (st\<lparr>st_B := (st_B st)[1 + l := row]\<rparr>)
         | Some tab1 \<Rightarrow>
             let st1 = st\<lparr>st_tab := tab1, st_B := (st_B st)[1 + l := row[0 := 0]]\<rparr>
             in if st_level st < int dim - 1
                then Continue (st1\<lparr>st_level := st_level st + 1, st_init := True\<rparr>)
                else (case add_solution env tab1 (st_callback st1) of
                        (r, cb) \<Rightarrow>
                          if r < 0 then Goto_error (st1\<lparr>st_callback := cb\<rparr>)
                          else
                            let st2 = st1\<lparr>st_callback := cb, st_init := False\<rparr>
                            in (case isl_tab_rollback env tab1 (st_snap st2 ! l) of
                                  None \<Rightarrow> Goto_error st2
                                | Some tab2 \<Rightarrow> Continue (st2\<lparr>st_tab := tab2\<rparr>))))"

text \<open>
  Lines 177--187: at the last level a counter is advanced by the whole range at once.
  (\<^verbatim>\<open>dim\<close> is unsigned and at least \<open>1\<close> inside the loop, so \<^verbatim>\<open>dim - 1\<close> does not wrap.)
\<close>

definition scan_count_range ::
  "('bset, 'tab, 'snap) scan_env \<Rightarrow> isl_counter \<Rightarrow> ('tab, 'snap, 'u) scan_state
     \<Rightarrow> ('tab, 'snap, 'u) scan_state flow" where
  "scan_count_range env cnt st =
     (let l = nat (st_level st)
      in case increment_range cnt (st_min st ! l) (st_max st ! l) of
           (r, cnt1) \<Rightarrow>
             let st1 = st\<lparr>st_callback := Counter cnt1\<rparr>
             in if r \<noteq> 0 then Goto_error st1 else scan_backtrack env st1)"

text \<open>One iteration of the loop, lines 146--201.\<close>

definition scan_body ::
  "('bset, 'tab, 'snap) scan_env \<Rightarrow> nat \<Rightarrow> ('tab, 'snap, 'u) scan_state
     \<Rightarrow> ('tab, 'snap, 'u) scan_state flow" where
  "scan_body env dim st =
     (let l = nat (st_level st)
      in case (if st_init st then scan_range env dim st
               else Inr (False, st\<lparr>st_min := (st_min st)[l := st_min st ! l + 1]\<rparr>)) of
           Inl st1 \<Rightarrow> Goto_error st1
         | Inr (emp, st1) \<Rightarrow>
             if emp \<or> st_max st1 ! l < st_min st1 ! l then scan_backtrack env st1
             else (case (if st_level st1 = int dim - 1 then counter_of (st_callback st1)
                         else None) of
                     Some cnt \<Rightarrow> scan_count_range env cnt st1
                   | None \<Rightarrow> scan_fix env dim st1))"

text \<open>
  The loop \<^verbatim>\<open>while (level >= 0)\<close>.  Leaving it normally returns \<open>0\<close>, the label
  \<^verbatim>\<open>error\<close> returns \<open>-1\<close>; the final state carries the callback.
\<close>

partial_function (option) scan_loop ::
  "('bset, 'tab, 'snap) scan_env \<Rightarrow> nat \<Rightarrow> ('tab, 'snap, 'u) scan_state
     \<Rightarrow> (int \<times> ('tab, 'snap, 'u) scan_state) option" where
  "scan_loop env dim st =
     (if 0 \<le> st_level st
      then (case scan_body env dim st of
              Goto_error st1 \<Rightarrow> Some (- 1, st1)
            | Continue st1 \<Rightarrow> scan_loop env dim st1)
      else Some (0, st))"

declare scan_loop.simps [code]

text \<open>
  Lines 120--143 of \<^verbatim>\<open>isl_basic_set_scan\<close>: the three allocations, which are made first
  and tested together, the tableau with room for \<^verbatim>\<open>dim + 1\<close> more constraints, the
  identity as its basis, the reduced basis and its copy \<^verbatim>\<open>B\<close>.  The result is the state
  in which the loop is entered, or \<open>None\<close> for \<^verbatim>\<open>goto error\<close>.
\<close>

definition scan_setup ::
  "('bset, 'tab, 'snap) scan_env \<Rightarrow> 'bset \<Rightarrow> 'u isl_scan_callback
     \<Rightarrow> ('tab, 'snap, 'u) scan_state option" where
  "scan_setup env b callback =
     (let dim = isl_basic_set_total_dim env b
      in if \<not> alloc_ok env Alloc_min \<or> \<not> alloc_ok env Alloc_max \<or> \<not> alloc_ok env Alloc_snap
         then None
         else (case isl_tab_from_basic_set env b of
                 None \<Rightarrow> None
               | Some tab0 \<Rightarrow>
               (case isl_tab_extend_cons env tab0 (dim + 1) of
                  None \<Rightarrow> None
                | Some tab1 \<Rightarrow>
                (case isl_tab_compute_reduced_basis env
                        (tab_set_basis env tab1 (isl_mat_identity env (1 + dim))) of
                   None \<Rightarrow> None
                 | Some tab2 \<Rightarrow>
                 (case tab_basis env tab2 of
                    None \<Rightarrow> None
                  | Some B \<Rightarrow>
                      Some \<lparr>st_tab = tab2, st_B = B,
                            st_min = replicate dim 0, st_max = replicate dim 0,
                            st_snap = replicate dim (uninit_snap env),
                            st_level = 0, st_init = True,
                            st_callback = callback\<rparr>)))))"

text \<open>
  \<^verbatim>\<open>isl_basic_set_scan\<close>: the return value and the callback as the scan leaves it.
\<close>

definition isl_basic_set_scan ::
  "('bset, 'tab, 'snap) scan_env \<Rightarrow> 'bset option \<Rightarrow> 'u isl_scan_callback
     \<Rightarrow> (int \<times> 'u isl_scan_callback) option" where
  "isl_basic_set_scan env bset callback =
     (case bset of
        None \<Rightarrow> Some (- 1, callback)
      | Some b \<Rightarrow>
          let dim = isl_basic_set_total_dim env b
          in if dim = 0 then Some (scan_0D env callback)
             else (case scan_setup env b callback of
                     None \<Rightarrow> Some (- 1, callback)
                   | Some st0 \<Rightarrow>
                       map_option (\<lambda>(r, st). (r, st_callback st)) (scan_loop env dim st0)))"

text \<open>The loop of \<^verbatim>\<open>isl_set_scan\<close> over the basic sets, lines 234--237.\<close>

fun scan_pieces ::
  "('bset, 'tab, 'snap) scan_env \<Rightarrow> 'bset list \<Rightarrow> 'u isl_scan_callback
     \<Rightarrow> (int \<times> 'u isl_scan_callback) option" where
  "scan_pieces env [] callback = Some (0, callback)"
| "scan_pieces env (b # bs) callback =
     (case isl_basic_set_scan env (isl_basic_set_copy env b) callback of
        None \<Rightarrow> None
      | Some (r, cb) \<Rightarrow> if r < 0 then Some (- 1, cb) else scan_pieces env bs cb)"

text \<open>\<^verbatim>\<open>isl_set_scan\<close> (the callback pointer is never \<^verbatim>\<open>NULL\<close> here).\<close>

definition isl_set_scan ::
  "('bset, 'tab, 'snap) scan_env \<Rightarrow> ('bset, 'set) set_env \<Rightarrow> 'set option
     \<Rightarrow> 'u isl_scan_callback \<Rightarrow> (int \<times> 'u isl_scan_callback) option" where
  "isl_set_scan env senv sp callback =
     (case sp of
        None \<Rightarrow> Some (- 1, callback)
      | Some s \<Rightarrow>
          (case isl_set_compute_divs senv
                  (isl_set_make_disjoint senv (isl_set_cow senv (Some s))) of
             None \<Rightarrow> Some (- 1, callback)
           | Some s1 \<Rightarrow> scan_pieces env (set_p senv s1) callback))"

text \<open>
  How the three counting functions end, lines 259--270: from the result of the scan and
  the old content of \<^verbatim>\<open>*count\<close> to the return value and the new content of \<^verbatim>\<open>*count\<close>.
  The callback of a counting scan is a counter when the scan returns.
\<close>

definition count_result ::
  "(int \<times> unit isl_scan_callback) option \<Rightarrow> int \<Rightarrow> (int \<times> int) option" where
  "count_result res count_out =
     (case res of
        None \<Rightarrow> None
      | Some (r, cb) \<Rightarrow>
          (case counter_of cb of
             None \<Rightarrow> None
           | Some cnt \<Rightarrow>
               if r < 0 \<and> count cnt < max_c cnt then Some (- 1, count_out)
               else Some (0, count cnt)))"

text \<open>\<^verbatim>\<open>isl_basic_set_count_upto\<close>\<close>

definition isl_basic_set_count_upto ::
  "('bset, 'tab, 'snap) scan_env \<Rightarrow> 'bset option \<Rightarrow> int \<Rightarrow> int \<Rightarrow> (int \<times> int) option" where
  "isl_basic_set_count_upto env bset mx count_out =
     (case bset of
        None \<Rightarrow> Some (- 1, count_out)
      | Some b \<Rightarrow>
          count_result
            (isl_basic_set_scan env (isl_basic_set_copy env b)
               (Counter \<lparr>count = 0, max_c = mx\<rparr>))
            count_out)"

text \<open>\<^verbatim>\<open>isl_set_count_upto\<close>\<close>

definition isl_set_count_upto ::
  "('bset, 'tab, 'snap) scan_env \<Rightarrow> ('bset, 'set) set_env \<Rightarrow> 'set option \<Rightarrow> int \<Rightarrow> int
     \<Rightarrow> (int \<times> int) option" where
  "isl_set_count_upto env senv sp mx count_out =
     (case sp of
        None \<Rightarrow> Some (- 1, count_out)
      | Some s \<Rightarrow>
          count_result
            (isl_set_scan env senv (isl_set_copy senv s) (Counter \<lparr>count = 0, max_c = mx\<rparr>))
            count_out)"

text \<open>\<^verbatim>\<open>isl_set_count\<close>: the bound is \<^verbatim>\<open>set->ctx->zero\<close>.\<close>

definition isl_set_count ::
  "('bset, 'tab, 'snap) scan_env \<Rightarrow> ('bset, 'set) set_env \<Rightarrow> 'set option \<Rightarrow> int
     \<Rightarrow> (int \<times> int) option" where
  "isl_set_count env senv sp count_out =
     (case sp of
        None \<Rightarrow> Some (- 1, count_out)
      | Some s \<Rightarrow> isl_set_count_upto env senv (Some s) (ctx_zero env) count_out)"


section \<open>Auxiliary notions for the enumerator\<close>

text \<open>The state with which an iteration ends, whichever way it ends.\<close>

primrec flow_state :: "'s flow \<Rightarrow> 's" where
  "flow_state (Continue s) = s"
| "flow_state (Goto_error s) = s"

text \<open>
  The shape of the state inside the loop: the level is one of \<open>0, \<dots>, dim - 1\<close> and
  \<^verbatim>\<open>min\<close> and \<^verbatim>\<open>max\<close> have \<open>dim\<close> entries.
\<close>

definition scan_inv :: "nat \<Rightarrow> ('tab, 'snap, 'u) scan_state \<Rightarrow> bool" where
  "scan_inv dim st \<longleftrightarrow>
     0 \<le> st_level st \<and> st_level st < int dim \<and>
     length (st_min st) = dim \<and> length (st_max st) = dim"

text \<open>
  The progress of the sweep at one level, for the termination argument.  A level above
  the current one still has the values from \<^verbatim>\<open>min\<close> to \<^verbatim>\<open>max\<close> to go and is inside the
  subtree of its current value; the current level, when its range is known, is about to
  advance; a level whose range is not computed yet counts as larger than any of these.
\<close>

definition level_key :: "('tab, 'snap, 'u) scan_state \<Rightarrow> nat \<Rightarrow> nat \<times> nat" where
  "level_key st i =
     (if int i < st_level st then (0, 2 * nat (st_max st ! i - st_min st ! i) + 1)
      else if int i = st_level st \<and> \<not> st_init st
           then (0, 2 * nat (st_max st ! i - st_min st ! i))
           else (1, 0))"

text \<open>The progress at the levels \<open>0, \<dots>, dim - 1\<close>, compared lexicographically.\<close>

definition scan_key :: "nat \<Rightarrow> ('tab, 'snap, 'u) scan_state \<Rightarrow> (nat \<times> nat) list" where
  "scan_key dim st = map (level_key st) [0..<dim]"

text \<open>The order in which every iteration of the loop descends.\<close>

definition scan_rel :: "nat \<Rightarrow> (('tab, 'snap, 'u) scan_state \<times> ('tab, 'snap, 'u) scan_state) set" where
  "scan_rel dim = inv_image (lex (less_than <*lex*> less_than)) (scan_key dim)"

text \<open>
  The first half of an iteration (lines 147--167): a new range, or the next value of the
  current range.
\<close>

definition range_phase ::
  "('bset, 'tab, 'snap) scan_env \<Rightarrow> nat \<Rightarrow> ('tab, 'snap, 'u) scan_state
     \<Rightarrow> ('tab, 'snap, 'u) scan_state + bool \<times> ('tab, 'snap, 'u) scan_state" where
  "range_phase env dim st =
     (if st_init st then scan_range env dim st
      else Inr (False, st\<lparr>st_min := (st_min st)[nat (st_level st) :=
                                      st_min st ! nat (st_level st) + 1]\<rparr>))"

text \<open>
  The second half of an iteration (lines 169--201), from the flag \<^verbatim>\<open>empty\<close> and the state
  that the first half leaves.
\<close>

definition select_phase ::
  "('bset, 'tab, 'snap) scan_env \<Rightarrow> nat \<Rightarrow> bool \<Rightarrow> ('tab, 'snap, 'u) scan_state
     \<Rightarrow> ('tab, 'snap, 'u) scan_state flow" where
  "select_phase env dim e st1 =
     (let l = nat (st_level st1)
      in if e \<or> st_max st1 ! l < st_min st1 ! l then scan_backtrack env st1
         else (case (if st_level st1 = int dim - 1 then counter_of (st_callback st1)
                     else None) of
                 Some cnt \<Rightarrow> scan_count_range env cnt st1
               | None \<Rightarrow> scan_fix env dim st1))"


text \<open>How the loop goes on after an iteration has ended.\<close>

definition loop_from ::
  "('bset, 'tab, 'snap) scan_env \<Rightarrow> nat \<Rightarrow> ('tab, 'snap, 'u) scan_state flow
     \<Rightarrow> (int \<times> ('tab, 'snap, 'u) scan_state) option" where
  "loop_from env dim f =
     (case f of Continue st1 \<Rightarrow> scan_loop env dim st1 | Goto_error st1 \<Rightarrow> Some (- 1, st1))"


text \<open>
  The states that the loop passes through: \<open>scan_reach env dim st st'\<close> when the loop
  entered in \<open>st\<close> has \<open>st'\<close> at the start of one of its iterations.
\<close>

inductive scan_reach ::
  "('bset, 'tab, 'snap) scan_env \<Rightarrow> nat \<Rightarrow> ('tab, 'snap, 'u) scan_state
     \<Rightarrow> ('tab, 'snap, 'u) scan_state \<Rightarrow> bool"
  for env dim where
    here: "scan_reach env dim st st"
  | later: "0 \<le> st_level st \<Longrightarrow> scan_body env dim st = Continue st1 \<Longrightarrow>
            scan_reach env dim st1 st2 \<Longrightarrow> scan_reach env dim st st2"

text \<open>The two results of a minimisation that the enumerator treats as a failure.\<close>

definition lp_failed :: "isl_lp_result \<Rightarrow> bool" where
  "lp_failed res \<longleftrightarrow> res = isl_lp_error \<or> res = isl_lp_unbounded"

text \<open>
  One of the two minimisations of the range computation in state \<open>st\<close> fails: the first
  one, or the second one on the tableau that the first one leaves, with the negated row.
\<close>

definition range_fails ::
  "('bset, 'tab, 'snap) scan_env \<Rightarrow> nat \<Rightarrow> ('tab, 'snap, 'u) scan_state \<Rightarrow> bool" where
  "range_fails env dim st =
     (let l = nat (st_level st);
          row = st_B st ! (1 + l)
      in case isl_tab_min env (st_tab st) row (ctx_one env) (st_min st ! l) of
           (res, mn, tab1) \<Rightarrow>
             lp_failed res \<or>
             lp_failed (fst (isl_tab_min env tab1 (isl_seq_neg_at row 1 dim) (ctx_one env)
                               (st_max st ! l))))"

text \<open>
  A small tableau for the examples.  Its basic sets are boxes, given by a lower and an
  upper bound for each coordinate; the tableau is the box, the stack of equalities added
  so far and the basis.
\<close>

record box_tab =
  box :: "(int \<times> int) list"
  eqs :: "int list list"
  basis :: "isl_mat option"

text \<open>
  An equality fixes the first coordinate that occurs in it.
\<close>

definition fix_coord :: "(int \<times> int) list \<Rightarrow> int list \<Rightarrow> (int \<times> int) list" where
  "fix_coord bs row =
     (case find (\<lambda>i. row ! (1 + i) \<noteq> 0) [0..<length bs] of
        None \<Rightarrow> bs
      | Some i \<Rightarrow> bs[i := (let v = (- (row ! 0)) div (row ! (1 + i)) in
                          (max (fst (bs ! i)) v, min (snd (bs ! i)) v))])"

text \<open>The bounds of the box after the equalities have fixed some coordinates.\<close>

definition box_bounds :: "box_tab \<Rightarrow> (int \<times> int) list" where
  "box_bounds t = foldl fix_coord (box t) (eqs t)"

text \<open>
  The minimum of a linear objective over the box, or \<^verbatim>\<open>isl_lp_empty\<close> when a coordinate
  has no value left.
\<close>

definition box_min :: "box_tab \<Rightarrow> int list \<Rightarrow> int \<Rightarrow> int \<Rightarrow> isl_lp_result \<times> int \<times> box_tab" where
  "box_min t row d old =
     (let bs = box_bounds t
      in if \<exists>b \<in> set bs. snd b < fst b then (isl_lp_empty, old, t)
         else (isl_lp_ok,
               row ! 0 + (\<Sum>i \<leftarrow> [0..<length bs].
                            if 0 \<le> row ! (1 + i) then row ! (1 + i) * fst (bs ! i)
                            else row ! (1 + i) * snd (bs ! i)),
               t))"

text \<open>The identity matrix.\<close>

definition unit_mat :: "nat \<Rightarrow> isl_mat" where
  "unit_mat n = map (\<lambda>i. map (\<lambda>j. if i = j then 1 else 0) [0..<n]) [0..<n]"

text \<open>
  The enumerator over boxes: every allocation succeeds, the reduced basis is the identity,
  a snapshot is the number of equalities on the stack and a rollback cuts the stack back
  to that number.
\<close>

definition box_env :: "((int \<times> int) list, box_tab, nat) scan_env" where
  "box_env =
     \<lparr>alloc_ok = (\<lambda>_. True),
      uninit_snap = 0,
      ctx_one = 1,
      ctx_zero = 0,
      isl_basic_set_total_dim = length,
      isl_basic_set_copy = Some,
      isl_tab_from_basic_set = (\<lambda>b. Some \<lparr>box = b, eqs = [], basis = None\<rparr>),
      isl_tab_extend_cons = (\<lambda>t n. Some t),
      isl_mat_identity = (\<lambda>n. Some (unit_mat n)),
      tab_set_basis = (\<lambda>t m. t\<lparr>basis := m\<rparr>),
      tab_basis = basis,
      isl_tab_compute_reduced_basis = Some,
      isl_tab_min = box_min,
      isl_tab_snap = (\<lambda>t. length (eqs t)),
      isl_tab_rollback = (\<lambda>t h. Some (t\<lparr>eqs := take h (eqs t)\<rparr>)),
      isl_tab_add_valid_eq = (\<lambda>t row. Some (t\<lparr>eqs := eqs t @ [row]\<rparr>)),
      isl_tab_get_sample_value = (\<lambda>t. Some (1 # map fst (box_bounds t)))\<rparr>"

text \<open>Sets are lists of boxes, taken to be disjoint as they are.\<close>

definition box_senv :: "((int \<times> int) list, (int \<times> int) list list) set_env" where
  "box_senv =
     \<lparr>isl_set_copy = Some, isl_set_cow = (\<lambda>s. s), isl_set_make_disjoint = (\<lambda>s. s),
      isl_set_compute_divs = (\<lambda>s. s), set_p = (\<lambda>s. s)\<rparr>"

text \<open>The same with a tableau that reports every minimisation as unbounded.\<close>

definition unbounded_env :: "((int \<times> int) list, box_tab, nat) scan_env" where
  "unbounded_env = box_env\<lparr>isl_tab_min := (\<lambda>t row d old. (isl_lp_unbounded, old, t))\<rparr>"

text \<open>The same with an allocator that is out of memory.\<close>

definition nomem_env :: "((int \<times> int) list, box_tab, nat) scan_env" where
  "nomem_env = box_env\<lparr>alloc_ok := (\<lambda>_. False)\<rparr>"

text \<open>A callback that collects the samples in a list and always continues.\<close>

definition collect :: "isl_vec list \<Rightarrow> isl_vec \<Rightarrow> int \<times> isl_vec list" where
  "collect pts sample = (0, pts @ [sample])"



text \<open>The same callback with the bound of a counter removed.\<close>

definition uncap_cb :: "'u isl_scan_callback \<Rightarrow> 'u isl_scan_callback" where
  "uncap_cb cb = (case cb of Counter cnt \<Rightarrow> Counter (cnt\<lparr>max_c := 0\<rparr>) | User f u \<Rightarrow> User f u)"

definition uncap :: "('tab, 'snap, 'u) scan_state \<Rightarrow> ('tab, 'snap, 'u) scan_state" where
  "uncap st = st\<lparr>st_callback := uncap_cb (st_callback st)\<rparr>"






text \<open>Column \<open>0\<close> of every basis row is zero (row \<open>0\<close> is not a direction).\<close>

definition zero_col :: "isl_mat \<Rightarrow> bool" where
  "zero_col B \<longleftrightarrow> (\<forall>i. 0 < i \<and> i < length B \<longrightarrow> B ! i ! 0 = 0)"





text \<open>
  Two states of the sweep, possibly with callbacks of different kinds, that stand for the
  same position of the search: same level, same basis, tableaux with the same
  constraints, the same ranges at the first \<open>nm\<close> levels and snapshots of the same
  heights at the first \<open>ns\<close> levels, where the heights increase with the level and do not
  exceed the stack.
\<close>

definition agree ::
  "('tab \<Rightarrow> int list list) \<Rightarrow> ('snap \<Rightarrow> nat) \<Rightarrow> nat \<Rightarrow> nat \<Rightarrow> nat
     \<Rightarrow> ('tab, 'snap, 'u) scan_state \<Rightarrow> ('tab, 'snap, 'v) scan_state \<Rightarrow> bool" where
  "agree \<alpha> \<beta> dim nm ns a b \<longleftrightarrow>
     st_level b = st_level a \<and> st_B b = st_B a \<and> zero_col (st_B a) \<and>
     \<alpha> (st_tab b) = \<alpha> (st_tab a) \<and>
     length (st_min a) = dim \<and> length (st_max a) = dim \<and> length (st_snap a) = dim \<and>
     length (st_min b) = dim \<and> length (st_max b) = dim \<and> length (st_snap b) = dim \<and>
     (\<forall>i<nm. st_min b ! i = st_min a ! i \<and> st_max b ! i = st_max a ! i) \<and>
     (\<forall>i<ns. \<beta> (st_snap b ! i) = \<beta> (st_snap a ! i) \<and>
             \<beta> (st_snap a ! i) \<le> length (\<alpha> (st_tab a))) \<and>
     (\<forall>i j. i \<le> j \<and> j < ns \<longrightarrow> \<beta> (st_snap a ! i) \<le> \<beta> (st_snap a ! j))"







text \<open>The one-dimensional box from \<open>0\<close> to \<open>3\<close> as the loop is entered, with a fresh counter.\<close>

definition box4_state :: "(box_tab, nat, unit) scan_state" where
  "box4_state =
     \<lparr>st_tab = \<lparr>box = [(0, 3)], eqs = [], basis = Some (unit_mat 2)\<rparr>,
      st_B = unit_mat 2, st_min = [0], st_max = [0], st_snap = [0],
      st_level = 0, st_init = True, st_callback = Counter \<lparr>count = 0, max_c = 0\<rparr>\<rparr>"




subsection \<open>Worked examples\<close>

text \<open>
  A small hash for the examples.  It has collisions on purpose: the name \<open>''x''\<close> and
  the absent name with a \<^verbatim>\<open>NULL\<close> user both hash to \<open>1\<close>.
\<close>

definition example_hash :: hash_ops where
  "example_hash =
     \<lparr>isl_hash_init = 0,
      isl_hash_string = (\<lambda>h s. h + of_nat (length s)),
      isl_hash_builtin = (\<lambda>h u. h + 1 + (case u of None \<Rightarrow> 0 | Some p \<Rightarrow> of_nat p))\<rparr>"


text \<open>An allocator run in which everything succeeds and \<^verbatim>\<open>calloc\<close> returns \<open>p\<close>.\<close>

definition alloc_at :: "ptr \<Rightarrow> alloc_outcome" where
  "alloc_at p = \<lparr>reserve_ok = True, strdup_ok = True, calloc_res = Some p\<rparr>"

text \<open>An allocator run in which \<^verbatim>\<open>calloc\<close> returns \<^verbatim>\<open>NULL\<close>.\<close>

definition alloc_fails :: alloc_outcome where
  "alloc_fails = \<lparr>reserve_ok = True, strdup_ok = True, calloc_res = None\<rparr>"

text \<open>
  The context after \<open>(''x'', NULL)\<close> has been interned at address \<open>1\<close> in the empty
  context.
\<close>

definition ctx_with_x :: isl_ctx where
  "ctx_with_x =
     \<lparr>ctx_ref = 2, id_table = \<lparr>tbl_n = 1, tbl_entries = [(1, 1)]\<rparr>,
      ids = [1 \<mapsto> \<lparr>id_ref = 1, id_name = Some ''x'', id_user = None, id_hash = 1,
                    id_free_user = None\<rparr>],
      free_user_calls = [], ctx_error = False\<rparr>"




section \<open>Properties of the counter callbacks\<close>

text \<open>
  Claim C4.  For every counter state and every pair of integers \<open>mn \<le> mx\<close>,
  \<^verbatim>\<open>increment_range\<close> adds \<open>mx - mn + 1\<close> to the count; when the new count reaches or
  exceeds a nonzero cap, the count is clamped to the cap and the result is stop (\<open>-1\<close>),
  otherwise the result is continue (\<open>0\<close>).  The function neither takes nor returns a
  sample vector: its result is a return code and a counter only.
\<close>

theorem increment_range_spec:
  assumes "mn \<le> mx"
  shows "increment_range cnt mn mx =
           (if max_c cnt \<noteq> 0 \<and> max_c cnt \<le> count cnt + (mx - mn + 1)
            then (- 1, cnt\<lparr>count := max_c cnt\<rparr>)
            else (0, cnt\<lparr>count := count cnt + (mx - mn + 1)\<rparr>))"
  by (auto simp: increment_range_def Let_def)

theorem increment_range_spec_witness:
  "(2::int) \<le> 10 \<and>
   increment_range \<lparr>count = 0, max_c = 4\<rparr> 2 10 = (- 1, \<lparr>count = 4, max_c = 4\<rparr>) \<and>
   increment_range \<lparr>count = 0, max_c = 0\<rparr> 2 10 = (0, \<lparr>count = 9, max_c = 0\<rparr>)"
  using increment_range_spec [of 2 10 "\<lparr>count = 0, max_c = 4\<rparr>"]
        increment_range_spec [of 2 10 "\<lparr>count = 0, max_c = 0\<rparr>"]
  by simp

text \<open>
  Claim C5.  For every counter state and every sample, \<^verbatim>\<open>increment_counter\<close> increments
  the count by exactly one and leaves the cap alone; it releases the sample, that is, it
  calls \<^verbatim>\<open>isl_vec_free\<close> once, on the sample, and on no other vector; and it returns stop
  (\<open>-1\<close>) if and only if the cap is nonzero and the updated count is at least the cap, and
  continue (\<open>0\<close>) otherwise.
\<close>

theorem increment_counter_spec:
  "increment_counter cnt sample =
     (if max_c cnt \<noteq> 0 \<and> max_c cnt \<le> count cnt + 1 then - 1 else 0,
      cnt\<lparr>count := count cnt + 1\<rparr>,
      [sample])"
  by (auto simp: increment_counter_def Let_def)

theorem increment_counter_spec_witness:
  "increment_counter \<lparr>count = 3, max_c = 4\<rparr> [1, 7] = (- 1, \<lparr>count = 4, max_c = 4\<rparr>, [[1, 7]]) \<and>
   increment_counter \<lparr>count = 2, max_c = 4\<rparr> [1, 7] = (0, \<lparr>count = 3, max_c = 4\<rparr>, [[1, 7]]) \<and>
   increment_counter \<lparr>count = 9, max_c = 0\<rparr> [1, 7] = (0, \<lparr>count = 10, max_c = 0\<rparr>, [[1, 7]])"
  using increment_counter_spec [of "\<lparr>count = 3, max_c = 4\<rparr>" "[1, 7]"]
        increment_counter_spec [of "\<lparr>count = 2, max_c = 4\<rparr>" "[1, 7]"]
        increment_counter_spec [of "\<lparr>count = 9, max_c = 0\<rparr>" "[1, 7]"]
  by simp


section \<open>Properties of the identifier registry\<close>




lemma has_name_and_user_undef:
  "isl_id_has_name_and_user r nu = None \<longleftrightarrow>
     id_user r = nu_user nu \<and> (id_name r = None) \<noteq> (nu_name nu = None)"
  by (auto simp: isl_id_has_name_and_user_def split: option.splits)








lemma isl_id_alloc_undef:
  "lookup_key h c name user = None \<Longrightarrow> isl_id_alloc h oc c name user = None"
  by (simp add: isl_id_alloc_def isl_hash_table_find_def lookup_key_def Let_def)

lemma isl_id_alloc_found:
  "lookup_key h c name user = Some (Some i) \<Longrightarrow>
   isl_id_alloc h oc c name user = isl_id_copy c (Some (snd (tbl_entries (id_table c) ! i)))"
  by (simp add: isl_id_alloc_def isl_hash_table_find_def lookup_key_def Let_def)

lemma isl_id_alloc_absent:
  "lookup_key h c name user = Some None \<Longrightarrow>
   isl_id_alloc h oc c name user =
     Some (if reserve_ok oc \<and> (name = None \<or> strdup_ok oc)
           then (case calloc_res oc of
                   None \<Rightarrow> (None, c)
                 | Some p \<Rightarrow>
                     (Some p,
                      c\<lparr>ctx_ref := ctx_ref c + 1,
                        ids := (ids c)(p \<mapsto> new_id h name user),
                        id_table := \<lparr>tbl_n = tbl_n (id_table c) + 1,
                                     tbl_entries = tbl_entries (id_table c) @
                                        [(key_hash h name user, p)]\<rparr>\<rparr>))
           else (None, c))"
  by (auto simp: isl_id_alloc_def isl_hash_table_find_def lookup_key_def Let_def id_alloc_def
      new_id_def split: option.splits)













lemma find_from_append:
  "find_from eq kh (es1 @ es2) i =
     (case find_from eq kh es1 i of
        Some None \<Rightarrow> find_from eq kh es2 (i + length es1)
      | x \<Rightarrow> x)"
proof (induction es1 arbitrary: i)
  case Nil
  then show ?case by simp
next
  case (Cons e es1)
  obtain h d where e: "e = (h, d)" by (cases e)
  have ih: "find_from eq kh (es1 @ es2) (Suc i) =
     (case find_from eq kh es1 (Suc i) of
        Some None \<Rightarrow> find_from eq kh es2 (Suc i + length es1)
      | x \<Rightarrow> x)"
    by (rule Cons.IH)
  show ?case
  proof (cases "h = kh")
    case False
    with e ih show ?thesis by (simp split: option.splits)
  next
    case True
    show ?thesis
    proof (cases "eq d")
      case None
      with True e show ?thesis by simp
    next
      case (Some v)
      with True e ih show ?thesis by (cases "v = 0") (simp_all split: option.splits)
    qed
  qed
qed











text \<open>
  Claim C9.  Whenever \<^verbatim>\<open>isl_id_alloc\<close> returns \<^verbatim>\<open>NULL\<close> the context, and with it the
  interning table, is exactly as before, so a later lookup of the key behaves as it did
  before the call.  In particular, when the key is absent and the allocation fails (the
  table cannot provide a slot, \<^verbatim>\<open>strdup\<close> fails or \<^verbatim>\<open>calloc\<close> fails), the call returns
  \<^verbatim>\<open>NULL\<close> and leaves no entry for the key.
\<close>

theorem isl_id_alloc_failure:
  "(isl_id_alloc h oc c name user = Some (None, c') \<longrightarrow>
      c' = c \<and> lookup_key h c' name user = lookup_key h c name user) \<and>
   (lookup_key h c name user = Some None \<and>
    (\<not> reserve_ok oc \<or> (name \<noteq> None \<and> \<not> strdup_ok oc) \<or> calloc_res oc = None) \<longrightarrow>
      isl_id_alloc h oc c name user = Some (None, c))"
proof (rule conjI; rule impI)
  assume f: "isl_id_alloc h oc c name user = Some (None, c')"
  have "c' = c"
  proof (cases "lookup_key h c name user")
    case None
    with isl_id_alloc_undef [OF this] f show ?thesis by simp
  next
    case (Some x)
    show ?thesis
    proof (cases x)
      case None
      with Some have l: "lookup_key h c name user = Some None" by simp
      from f [unfolded isl_id_alloc_absent [OF l]]
      show ?thesis by (auto split: if_splits option.splits)
    next
      case (Some i)
      with \<open>lookup_key h c name user = Some x\<close>
      have l: "lookup_key h c name user = Some (Some i)" by simp
      from f [unfolded isl_id_alloc_found [OF l]]
      show ?thesis by (auto simp: isl_id_copy_def split: if_splits option.splits)
    qed
  qed
  then show "c' = c \<and> lookup_key h c' name user = lookup_key h c name user" by simp
next
  assume a: "lookup_key h c name user = Some None \<and>
    (\<not> reserve_ok oc \<or> (name \<noteq> None \<and> \<not> strdup_ok oc) \<or> calloc_res oc = None)"
  then have l: "lookup_key h c name user = Some None" by simp
  from a show "isl_id_alloc h oc c name user = Some (None, c)"
    unfolding isl_id_alloc_absent [OF l] by (auto split: option.splits)
qed

theorem isl_id_alloc_failure_witness:
  "lookup_key example_hash ctx_with_x (Some ''yy'') None = Some None \<and>
   calloc_res alloc_fails = None \<and>
   isl_id_alloc example_hash alloc_fails ctx_with_x (Some ''yy'') None = Some (None, ctx_with_x)"
proof -
  have l: "lookup_key example_hash ctx_with_x (Some ''yy'') None = Some None"
    by (simp add: lookup_key_def key_hash_def example_hash_def ctx_with_x_def)
  have f: "calloc_res alloc_fails = None" by (simp add: alloc_fails_def)
  from isl_id_alloc_failure [of example_hash alloc_fails ctx_with_x "Some ''yy''" None] l f
  show ?thesis by blast
qed

text \<open>
  Claim C10.  \<^verbatim>\<open>isl_id_has_name_and_user\<close> has no defined result exactly when the user
  pointers agree and one of the two names is absent while the other is present: it then
  reaches \<^verbatim>\<open>strcmp\<close> with a \<^verbatim>\<open>NULL\<close> argument instead of answering ``not equal''.  The
  case is reachable from \<^verbatim>\<open>isl_id_alloc\<close>: when the lookup meets a slot with the hash of
  the key whose identifier has the same user and differs in the presence of a name, the
  call has no defined result.
\<close>

theorem has_name_and_user_partial:
  "(isl_id_has_name_and_user r nu = None \<longleftrightarrow>
      id_user r = nu_user nu \<and> (id_name r = None) \<noteq> (nu_name nu = None)) \<and>
   (tbl_entries (id_table c) = es1 @ (key_hash h name user, p) # es2 \<and>
    find_from (\<lambda>d. case ids c d of None \<Rightarrow> None
                    | Some r' \<Rightarrow> isl_id_has_name_and_user r' \<lparr>nu_name = name, nu_user = user\<rparr>)
      (key_hash h name user) es1 0 = Some None \<and>
    ids c p = Some r \<and> id_user r = user \<and> (id_name r = None) \<noteq> (name = None) \<longrightarrow>
      isl_id_alloc h oc c name user = None)"
proof (intro conjI impI)
  show "isl_id_has_name_and_user r nu = None \<longleftrightarrow>
      id_user r = nu_user nu \<and> (id_name r = None) \<noteq> (nu_name nu = None)"
    by (rule has_name_and_user_undef)
next
  let ?eq = "\<lambda>d. case ids c d of None \<Rightarrow> None
                    | Some r' \<Rightarrow> isl_id_has_name_and_user r' \<lparr>nu_name = name, nu_user = user\<rparr>"
  assume a: "tbl_entries (id_table c) = es1 @ (key_hash h name user, p) # es2 \<and>
    find_from ?eq (key_hash h name user) es1 0 = Some None \<and>
    ids c p = Some r \<and> id_user r = user \<and> (id_name r = None) \<noteq> (name = None)"
  then have "isl_id_has_name_and_user r \<lparr>nu_name = name, nu_user = user\<rparr> = None"
    by (simp add: has_name_and_user_undef)
  with a have "?eq p = None" by simp
  with a have "lookup_key h c name user = None"
    by (simp add: lookup_key_def find_from_append)
  then show "isl_id_alloc h oc c name user = None" by (rule isl_id_alloc_undef)
qed

theorem has_name_and_user_partial_witness:
  "isl_id_has_name_and_user
     \<lparr>id_ref = 1, id_name = Some ''x'', id_user = None, id_hash = 1, id_free_user = None\<rparr>
     \<lparr>nu_name = None, nu_user = None\<rparr> = None \<and>
   key_hash example_hash (Some ''x'') None = key_hash example_hash None None \<and>
   isl_id_alloc example_hash (alloc_at 2) ctx_with_x None None = None"
proof -
  let ?r = "\<lparr>id_ref = 1, id_name = Some ''x'', id_user = None, id_hash = 1, id_free_user = None\<rparr>"
  have k: "key_hash example_hash (Some ''x'') None = key_hash example_hash None None"
    by (simp add: key_hash_def example_hash_def)
  have e: "tbl_entries (id_table ctx_with_x) = [] @ (key_hash example_hash None None, 1) # []"
    by (simp add: ctx_with_x_def key_hash_def example_hash_def)
  have i: "ids ctx_with_x 1 = Some ?r" by (simp add: ctx_with_x_def)
  from has_name_and_user_partial
    [of ?r "\<lparr>nu_name = None, nu_user = None\<rparr>" ctx_with_x "[]" example_hash None None 1 "[]"
        "alloc_at 2"] e i k
  show ?thesis by simp
qed


section \<open>The sweep terminates\<close>

lemma wf_scan_rel: "wf (scan_rel dim)"
  unfolding scan_rel_def by (intro wf_inv_image wf_lex wf_lex_prod wf_less_than)

lemma lex_nthI:
  assumes len: "length xs = length ys" and p: "p < length xs"
    and eq: "\<And>j. j < p \<Longrightarrow> xs ! j = ys ! j" and lt: "(xs ! p, ys ! p) \<in> r"
  shows "(xs, ys) \<in> lex r"
proof -
  have tk: "take p xs = take p ys"
    using len p eq by (intro nth_take_lemma) auto
  have xs: "xs = take p xs @ xs ! p # drop (Suc p) xs"
    using p by (simp add: id_take_nth_drop)
  have ys: "ys = take p xs @ ys ! p # drop (Suc p) ys"
    using p len tk by (simp add: id_take_nth_drop)
  show ?thesis
    unfolding lex_conv using len xs ys lt by blast
qed

lemma scan_rel_I:
  assumes "p < dim"
    and "\<And>j. j < p \<Longrightarrow> level_key st' j = level_key st j"
    and "(level_key st' p, level_key st p) \<in> less_than <*lex*> less_than"
  shows "(st', st) \<in> scan_rel dim"
  unfolding scan_rel_def scan_key_def
  using assms by (auto intro!: lex_nthI [where p = p])

lemma scan_range_Inr:
  assumes "scan_range env dim st = Inr (e, st1)"
  shows "st_level st1 = st_level st \<and> st_init st1 = st_init st \<and>
         st_callback st1 = st_callback st \<and>
         length (st_min st1) = length (st_min st) \<and> length (st_max st1) = length (st_max st) \<and>
         (\<forall>j. j \<noteq> nat (st_level st) \<longrightarrow>
            st_min st1 ! j = st_min st ! j \<and> st_max st1 ! j = st_max st ! j)"
  using assms
  by (auto simp: scan_range_def Let_def split: prod.splits if_splits)

lemma scan_range_Inl:
  assumes "scan_range env dim st = Inl st1"
  shows "st_callback st1 = st_callback st"
  using assms
  by (auto simp: scan_range_def Let_def split: prod.splits if_splits)

lemma scan_backtrack_Continue:
  assumes "scan_backtrack env st = Continue st'"
  shows "st_level st' = st_level st - 1 \<and> \<not> st_init st' \<and> st_min st' = st_min st \<and>
         st_max st' = st_max st \<and> st_callback st' = st_callback st"
  using assms
  by (auto simp: scan_backtrack_def Let_def split: option.splits if_splits)

lemma scan_backtrack_callback:
  "st_callback (flow_state (scan_backtrack env st)) = st_callback st"
  by (auto simp: scan_backtrack_def Let_def split: option.splits if_splits)

lemma scan_fix_Continue:
  assumes "scan_fix env dim st = Continue st'"
  shows "st_min st' = st_min st \<and> st_max st' = st_max st \<and>
         (if st_level st < int dim - 1
          then st_level st' = st_level st + 1 \<and> st_init st' \<and> st_callback st' = st_callback st
          else st_level st' = st_level st \<and> \<not> st_init st')"
  using assms
  by (auto simp: scan_fix_def Let_def split: option.splits if_splits prod.splits)

lemma scan_count_range_Continue:
  assumes "scan_count_range env cnt st = Continue st'"
  shows "st_level st' = st_level st - 1 \<and> \<not> st_init st' \<and> st_min st' = st_min st \<and>
         st_max st' = st_max st"
  using assms
  by (auto simp: scan_count_range_def Let_def split: prod.splits if_splits
      dest!: scan_backtrack_Continue)

lemma range_phase_Inr:
  assumes "range_phase env dim st = Inr (e, st1)"
  shows "st_level st1 = st_level st \<and> st_init st1 = st_init st \<and>
         st_callback st1 = st_callback st \<and>
         length (st_min st1) = length (st_min st) \<and> length (st_max st1) = length (st_max st) \<and>
         (\<forall>j. j \<noteq> nat (st_level st) \<longrightarrow>
            st_min st1 ! j = st_min st ! j \<and> st_max st1 ! j = st_max st ! j) \<and>
         (\<not> st_init st \<longrightarrow> \<not> e \<and> st_max st1 = st_max st \<and>
            st_min st1 = (st_min st)[nat (st_level st) := st_min st ! nat (st_level st) + 1])"
proof (cases "st_init st")
  case True
  with assms have "scan_range env dim st = Inr (e, st1)" by (simp add: range_phase_def)
  from scan_range_Inr [OF this] True show ?thesis by simp
next
  case False
  with assms show ?thesis by (auto simp: range_phase_def)
qed

lemma scan_body_phases:
  "scan_body env dim st =
     (case range_phase env dim st of
        Inl st1 \<Rightarrow> Goto_error st1
      | Inr (e, st1) \<Rightarrow> select_phase env dim e st1)"
proof (cases "range_phase env dim st")
  case (Inl st1)
  then show ?thesis by (simp add: scan_body_def range_phase_def Let_def)
next
  case (Inr x)
  obtain e st1 where x: "x = (e, st1)" by (cases x)
  from range_phase_Inr [OF Inr [unfolded x]] have "st_level st1 = st_level st" by simp
  with Inr x show ?thesis
    by (simp add: scan_body_def range_phase_def select_phase_def Let_def)
qed

lemma select_phase_Continue:
  assumes "select_phase env dim e st1 = Continue st'"
  shows "st_min st' = st_min st1 \<and> st_max st' = st_max st1 \<and>
         ((st_level st' = st_level st1 - 1 \<and> \<not> st_init st') \<or>
          (\<not> e \<and> st_min st1 ! nat (st_level st1) \<le> st_max st1 ! nat (st_level st1) \<and>
           (if st_level st1 < int dim - 1
            then st_level st' = st_level st1 + 1 \<and> st_init st'
            else st_level st' = st_level st1 \<and> \<not> st_init st')))"
proof -
  let ?l = "nat (st_level st1)"
  show ?thesis
  proof (cases "e \<or> st_max st1 ! ?l < st_min st1 ! ?l")
    case True
    with assms have "scan_backtrack env st1 = Continue st'"
      by (auto simp: select_phase_def Let_def)
    from scan_backtrack_Continue [OF this] show ?thesis by simp
  next
    case False
    show ?thesis
    proof (cases "if st_level st1 = int dim - 1 then counter_of (st_callback st1) else None")
      case None
      with False assms have "scan_fix env dim st1 = Continue st'"
        by (auto simp: select_phase_def Let_def)
      from scan_fix_Continue [OF this] False show ?thesis by (auto split: if_splits)
    next
      case (Some cnt)
      with False assms have "scan_count_range env cnt st1 = Continue st'"
        by (auto simp: select_phase_def Let_def)
      from scan_count_range_Continue [OF this] show ?thesis by simp
    qed
  qed
qed

lemma scan_body_step:
  assumes inv: "scan_inv dim st" and b: "scan_body env dim st = Continue st'"
  shows "st_level st' < 0 \<or> (scan_inv dim st' \<and> (st', st) \<in> scan_rel dim)"
proof -
  let ?l = "nat (st_level st)"
  from inv have lv: "0 \<le> st_level st" "st_level st < int dim" "int ?l = st_level st" "?l < dim"
    and len: "length (st_min st) = dim" "length (st_max st) = dim"
    by (auto simp: scan_inv_def)
  from b obtain e st1 where r: "range_phase env dim st = Inr (e, st1)"
    and s: "select_phase env dim e st1 = Continue st'"
    unfolding scan_body_phases by (auto split: sum.splits)
  from range_phase_Inr [OF r] have r1: "st_level st1 = st_level st"
    "length (st_min st1) = dim" "length (st_max st1) = dim"
    and same: "\<And>j. j \<noteq> ?l \<Longrightarrow> st_min st1 ! j = st_min st ! j \<and> st_max st1 ! j = st_max st ! j"
    and next_val: "\<not> st_init st \<Longrightarrow> \<not> e \<and> st_max st1 ! ?l = st_max st ! ?l \<and>
                     st_min st1 ! ?l = st_min st ! ?l + 1"
    using len lv by auto
  from select_phase_Continue [OF s] have mm: "st_min st' = st_min st1" "st_max st' = st_max st1"
    and alt: "(st_level st' = st_level st - 1 \<and> \<not> st_init st') \<or>
          (\<not> e \<and> st_min st1 ! ?l \<le> st_max st1 ! ?l \<and>
           (if st_level st < int dim - 1
            then st_level st' = st_level st + 1 \<and> st_init st'
            else st_level st' = st_level st \<and> \<not> st_init st'))"
    using r1 by auto
  from alt show ?thesis
  proof
    assume up: "st_level st' = st_level st - 1 \<and> \<not> st_init st'"
    show ?thesis
    proof (cases "st_level st = 0")
      case True
      with up show ?thesis by simp
    next
      case False
      with lv(1) have lpos: "0 < st_level st" by linarith
      then have pos: "0 < ?l" by simp
      have inv': "scan_inv dim st'"
        using up lv(2) lpos mm r1(2,3) by (simp add: scan_inv_def)
      have "(st', st) \<in> scan_rel dim"
      proof (rule scan_rel_I [where p = "?l - 1"])
        show "?l - 1 < dim" using lv by simp
      next
        fix j assume "j < ?l - 1"
        then show "level_key st' j = level_key st j"
          using up lv mm same [of j] by (auto simp: level_key_def)
      next
        have "int (?l - 1) = st_level st'" using up pos lv by simp
        moreover have "int (?l - 1) < st_level st" using pos lv by simp
        ultimately show "(level_key st' (?l - 1), level_key st (?l - 1))
                           \<in> less_than <*lex*> less_than"
          using up mm same [of "?l - 1"] pos by (auto simp: level_key_def)
      qed
      with inv' show ?thesis by simp
    qed
  next
    assume fx: "\<not> e \<and> st_min st1 ! ?l \<le> st_max st1 ! ?l \<and>
           (if st_level st < int dim - 1
            then st_level st' = st_level st + 1 \<and> st_init st'
            else st_level st' = st_level st \<and> \<not> st_init st')"
    then have le1: "st_min st1 ! ?l \<le> st_max st1 ! ?l" by simp
    from fx have lv': "(st_level st' = st_level st + 1 \<and> st_init st' \<and> st_level st < int dim - 1) \<or>
                       (st_level st' = st_level st \<and> \<not> st_init st')"
      by (simp split: if_splits)
    have inv': "scan_inv dim st'"
      using lv' lv(1,2) mm r1(2,3) by (auto simp: scan_inv_def)
    have below: "\<And>j. j < ?l \<Longrightarrow> level_key st' j = level_key st j"
    proof -
      fix j assume j: "j < ?l"
      then have "int j < st_level st" "int j < st_level st'" using lv' lv(1) by auto
      moreover from j have "j \<noteq> ?l" by simp
      ultimately show "level_key st' j = level_key st j"
        using same [of j] mm by (simp add: level_key_def)
    qed
    have new: "level_key st' ?l = (0, 2 * nat (st_max st1 ! ?l - st_min st1 ! ?l) + 1) \<or>
               level_key st' ?l = (0, 2 * nat (st_max st1 ! ?l - st_min st1 ! ?l))"
      using lv' lv(3) mm by (auto simp: level_key_def)
    have old: "level_key st ?l =
                 (if st_init st then (1, 0) else (0, 2 * nat (st_max st ! ?l - st_min st ! ?l)))"
      using lv(3) by (simp add: level_key_def)
    have "(level_key st' ?l, level_key st ?l) \<in> less_than <*lex*> less_than"
    proof (cases "st_init st")
      case True
      with new old show ?thesis by auto
    next
      case False
      from next_val [OF False] le1
      have "st_min st ! ?l + 1 \<le> st_max st ! ?l" "st_max st1 ! ?l = st_max st ! ?l"
        "st_min st1 ! ?l = st_min st ! ?l + 1"
        by auto
      then have lt: "2 * nat (st_max st1 ! ?l - st_min st1 ! ?l) + 1
                   < 2 * nat (st_max st ! ?l - st_min st ! ?l)"
        by linarith
      define a where "a = 2 * nat (st_max st1 ! ?l - st_min st1 ! ?l)"
      define b where "b = 2 * nat (st_max st ! ?l - st_min st ! ?l)"
      from lt have "a + 1 < b" by (simp add: a_def b_def)
      moreover from new have "level_key st' ?l = (0, a + 1) \<or> level_key st' ?l = (0, a)"
        by (simp add: a_def)
      moreover from old False have "level_key st ?l = (0, b)" by (simp add: b_def)
      ultimately show ?thesis by auto
    qed
    with below lv(4) have "(st', st) \<in> scan_rel dim"
      by (intro scan_rel_I [where p = ?l]) auto
    with inv' show ?thesis by simp
  qed
qed

lemma scan_loop_induct [consumes 1, case_names step]:
  assumes inv: "scan_inv dim st"
    and step: "\<And>st. scan_inv dim st \<Longrightarrow>
       (\<And>st'. scan_body env dim st = Continue st' \<Longrightarrow> 0 \<le> st_level st' \<Longrightarrow>
              scan_inv dim st' \<and> P st') \<Longrightarrow> P st"
  shows "P st"
proof -
  have "scan_inv dim st \<longrightarrow> P st"
  proof (induction st rule: wf_induct_rule [OF wf_scan_rel [of dim]])
    case (1 st)
    show ?case
    proof
      assume i: "scan_inv dim st"
      show "P st"
      proof (rule step [OF i])
        fix st' assume b: "scan_body env dim st = Continue st'" and l: "0 \<le> st_level st'"
        from scan_body_step [OF i b] l have "scan_inv dim st'" "(st', st) \<in> scan_rel dim"
          by auto
        with 1 show "scan_inv dim st' \<and> P st'" by blast
      qed
    qed
  qed
  with inv show ?thesis by simp
qed

lemma scan_loop_returns:
  assumes "scan_inv dim st"
  shows "\<exists>r. scan_loop env dim st = Some r"
  using assms
proof (induction rule: scan_loop_induct [where env = env])
  case (step st)
  show ?case
  proof (cases "scan_body env dim st")
    case (Goto_error st1)
    with step(1) show ?thesis by (subst scan_loop.simps) (simp add: scan_inv_def)
  next
    case (Continue st1)
    show ?thesis
    proof (cases "0 \<le> st_level st1")
      case True
      from step(2) [OF Continue True] obtain r where "scan_loop env dim st1 = Some r" by blast
      with Continue step(1) show ?thesis by (subst scan_loop.simps) (simp add: scan_inv_def)
    next
      case False
      then have "scan_loop env dim st1 = Some (0, st1)" by (subst scan_loop.simps) simp
      with Continue step(1) show ?thesis by (subst scan_loop.simps) (simp add: scan_inv_def)
    qed
  qed
qed


lemma scan_loop_unfold:
  "0 \<le> st_level st \<Longrightarrow> scan_loop env dim st = loop_from env dim (scan_body env dim st)"
  by (subst scan_loop.simps) (simp add: loop_from_def)


lemma scan_loop_result_induct [consumes 1, case_names exit error continue]:
  fixes env :: "('bset, 'tab, 'snap) scan_env" and st :: "('tab, 'snap, 'u) scan_state"
  assumes run: "scan_loop env dim st = Some y"
    and exit: "\<And>st. st_level st < 0 \<Longrightarrow> P st (0, st)"
    and err: "\<And>st st1. 0 \<le> st_level st \<Longrightarrow> scan_body env dim st = Goto_error st1 \<Longrightarrow>
                P st (- 1, st1)"
    and cont: "\<And>st st1 y. 0 \<le> st_level st \<Longrightarrow> scan_body env dim st = Continue st1 \<Longrightarrow>
                scan_loop env dim st1 = Some y \<Longrightarrow> P st1 y \<Longrightarrow> P st y"
  shows "P st y"
proof -
  have "scan_loop env dim st = Some y \<Longrightarrow>
        (\<lambda>e d s r. e = env \<longrightarrow> d = dim \<longrightarrow> scan_loop env dim s = Some r \<longrightarrow> P s r) env dim st y"
  proof (rule scan_loop.raw_induct
      [where P = "\<lambda>e d s r. e = env \<longrightarrow> d = dim \<longrightarrow> scan_loop env dim s = Some r \<longrightarrow> P s r"])
    fix f :: "('bset, 'tab, 'snap) scan_env \<Rightarrow> nat \<Rightarrow> ('tab, 'snap, 'u) scan_state
                \<Rightarrow> (int \<times> ('tab, 'snap, 'u) scan_state) option"
    fix e d s r
    assume ih: "\<And>e' d' s' r'. f e' d' s' = Some r' \<Longrightarrow>
                  e' = env \<longrightarrow> d' = dim \<longrightarrow> scan_loop env dim s' = Some r' \<longrightarrow> P s' r'"
      and eq: "(if 0 \<le> st_level s
                then case scan_body e d s of Continue st1 \<Rightarrow> f e d st1
                     | Goto_error st1 \<Rightarrow> Some (- 1, st1)
                else Some (0, s)) = Some r"
    show "e = env \<longrightarrow> d = dim \<longrightarrow> scan_loop env dim s = Some r \<longrightarrow> P s r"
    proof (intro impI)
      assume ed: "e = env" "d = dim" and real: "scan_loop env dim s = Some r"
      show "P s r"
      proof (cases "0 \<le> st_level s")
        case False
        with eq exit [of s] show ?thesis by simp
      next
        case True
        show ?thesis
        proof (cases "scan_body env dim s")
          case (Goto_error st1)
          with eq True ed err [OF True Goto_error] show ?thesis by simp
        next
          case (Continue st1)
          with eq True ed have f: "f env dim st1 = Some r" by simp
          from real True Continue have r1: "scan_loop env dim st1 = Some r"
            by (simp add: scan_loop_unfold loop_from_def)
          from ih [OF f] r1 have "P st1 r" by simp
          from cont [OF True Continue r1 this] show ?thesis .
        qed
      qed
    qed
  qed (rule run)
  with run show ?thesis by simp
qed

text \<open>The callback keeps its kind, and a counter its bound.\<close>

lemma callback_add_counter:
  "counter_of cb = Some c \<Longrightarrow>
     \<exists>c'. counter_of (snd (callback_add cb sample)) = Some c' \<and> max_c c' = max_c c"
  by (cases cb) (auto simp: counter_of_def callback_add_def increment_counter_def Let_def)

lemma range_phase_callback:
  "range_phase env dim st = Inl st1 \<Longrightarrow> st_callback st1 = st_callback st"
  "range_phase env dim st = Inr (e, st1) \<Longrightarrow> st_callback st1 = st_callback st"
  by (auto simp: range_phase_def dest: scan_range_Inl scan_range_Inr split: if_splits)

lemma scan_fix_counter:
  assumes "counter_of (st_callback st) = Some c"
  shows "\<exists>c'. counter_of (st_callback (flow_state (scan_fix env dim st))) = Some c' \<and>
              max_c c' = max_c c"
proof -
  have a: "\<And>t. \<exists>c'. counter_of (snd (add_solution env t (st_callback st))) = Some c' \<and>
             max_c c' = max_c c"
    using assms callback_add_counter [OF assms]
    by (auto simp: add_solution_def split: option.splits)
  show ?thesis
  proof (cases "isl_tab_add_valid_eq env (st_tab st)
                  ((st_B st ! (1 + nat (st_level st)))[0 := - (st_min st ! nat (st_level st))])")
    case None
    with assms show ?thesis by (simp add: scan_fix_def Let_def)
  next
    case (Some t)
    from a [of t] obtain c' where c': "counter_of (snd (add_solution env t (st_callback st))) = Some c'"
      "max_c c' = max_c c" by blast
    with Some assms show ?thesis
      by (cases "add_solution env t (st_callback st)")
         (auto simp: scan_fix_def Let_def split: option.splits)
  qed
qed

lemma scan_count_range_counter:
  "\<exists>c'. counter_of (st_callback (flow_state (scan_count_range env c st))) = Some c' \<and>
        max_c c' = max_c c"
  by (auto simp: scan_count_range_def Let_def increment_range_def counter_of_def
      scan_backtrack_callback split: prod.splits)

lemma select_phase_counter:
  assumes "counter_of (st_callback st) = Some c"
  shows "\<exists>c'. counter_of (st_callback (flow_state (select_phase env dim e st))) = Some c' \<and>
              max_c c' = max_c c"
  using assms scan_fix_counter [OF assms, of env dim] scan_count_range_counter [of env c st]
  by (auto simp: select_phase_def Let_def scan_backtrack_callback)

lemma scan_body_counter:
  assumes "counter_of (st_callback st) = Some c"
  shows "\<exists>c'. counter_of (st_callback (flow_state (scan_body env dim st))) = Some c' \<and>
              max_c c' = max_c c"
proof (cases "range_phase env dim st")
  case (Inl st1)
  with assms range_phase_callback(1) [OF Inl] show ?thesis by (simp add: scan_body_phases)
next
  case (Inr x)
  obtain e st1 where x: "x = (e, st1)" by (cases x)
  from range_phase_callback(2) [OF Inr [unfolded x]] assms
  have "counter_of (st_callback st1) = Some c" by simp
  from select_phase_counter [OF this, of env dim e] Inr x show ?thesis
    by (simp add: scan_body_phases)
qed

lemma scan_loop_counter:
  assumes "scan_loop env dim st = Some y" and "counter_of (st_callback st) = Some c"
  shows "\<exists>c'. counter_of (st_callback (snd y)) = Some c' \<and> max_c c' = max_c c"
  using assms
proof (induction arbitrary: c rule: scan_loop_result_induct)
  case (exit st)
  then show ?case by simp
next
  case (error st st1)
  with scan_body_counter [OF error(3), of env dim] show ?case by simp
next
  case (continue st st1 y)
  from scan_body_counter [OF continue(5), of env dim] continue(2)
  obtain c1 where "counter_of (st_callback st1) = Some c1" "max_c c1 = max_c c" by auto
  with continue(4) [of c1] show ?case by simp
qed


lemma scan_reach_loop:
  "scan_reach env dim st st' \<Longrightarrow> scan_loop env dim st = scan_loop env dim st'"
  by (induction rule: scan_reach.induct) (simp_all add: scan_loop_unfold loop_from_def)

lemma scan_setup_inv:
  assumes "scan_setup env b callback = Some st0" and "isl_basic_set_total_dim env b = dim"
    and "dim \<noteq> 0"
  shows "scan_inv dim st0 \<and> st_callback st0 = callback"
  using assms
  by (auto simp: scan_setup_def scan_inv_def Let_def split: if_splits option.splits)

lemma isl_basic_set_scan_returns: "\<exists>r. isl_basic_set_scan env bset callback = Some r"
proof (cases bset)
  case None
  then show ?thesis by (simp add: isl_basic_set_scan_def)
next
  case (Some b)
  show ?thesis
  proof (cases "isl_basic_set_total_dim env b = 0")
    case True
    with Some show ?thesis by (simp add: isl_basic_set_scan_def)
  next
    case False
    show ?thesis
    proof (cases "scan_setup env b callback")
      case None
      with Some False show ?thesis by (simp add: isl_basic_set_scan_def)
    next
      case (Some st0)
      from scan_setup_inv [OF Some refl False] have "scan_inv (isl_basic_set_total_dim env b) st0"
        by simp
      from scan_loop_returns [OF this, of env] obtain r where
        "scan_loop env (isl_basic_set_total_dim env b) st0 = Some r" by blast
      with Some False \<open>bset = Some b\<close> show ?thesis by (simp add: isl_basic_set_scan_def)
    qed
  qed
qed

lemma range_fails_body:
  assumes "st_init st" and "range_fails env dim st"
  shows "\<exists>st1. scan_body env dim st = Goto_error st1 \<and> st_callback st1 = st_callback st"
proof -
  from assms have "\<exists>st1. scan_range env dim st = Inl st1"
    by (auto simp: range_fails_def lp_failed_def scan_range_def Let_def split: prod.splits)
  then obtain st1 where r: "scan_range env dim st = Inl st1" by blast
  with assms(1) have "range_phase env dim st = Inl st1" by (simp add: range_phase_def)
  with scan_range_Inl [OF r] show ?thesis by (simp add: scan_body_phases)
qed

text \<open>
  Claim C7.  When, at any level, one of the two minimisations of the range computation
  reports unbounded or an error, the iteration ends at the label \<^verbatim>\<open>error\<close> without
  treating the level as a range; and when this happens in a state that the sweep of a
  basic set passes through, \<^verbatim>\<open>isl_basic_set_scan\<close> returns \<open>-1\<close> with the callback as it
  is in that state.  The scan never runs forever: for every tableau, basic set and
  callback it returns.
\<close>

theorem scan_aborts_on_lp_failure:
  "(0 \<le> st_level st \<and> st_init st \<and> range_fails env dim st \<longrightarrow>
      (\<exists>st1. scan_body env dim st = Goto_error st1 \<and> st_callback st1 = st_callback st)) \<and>
   (scan_setup env b callback = Some st0 \<and> isl_basic_set_total_dim env b = dim \<and> dim \<noteq> 0 \<and>
    scan_reach env dim st0 st \<and> 0 \<le> st_level st \<and> st_init st \<and> range_fails env dim st \<longrightarrow>
      isl_basic_set_scan env (Some b) callback = Some (- 1, st_callback st)) \<and>
   (\<exists>r. isl_basic_set_scan env bset callback = Some r)"
proof (intro conjI impI)
  assume "0 \<le> st_level st \<and> st_init st \<and> range_fails env dim st"
  then show "\<exists>st1. scan_body env dim st = Goto_error st1 \<and> st_callback st1 = st_callback st"
    using range_fails_body by blast
next
  assume a: "scan_setup env b callback = Some st0 \<and> isl_basic_set_total_dim env b = dim \<and>
    dim \<noteq> 0 \<and> scan_reach env dim st0 st \<and> 0 \<le> st_level st \<and> st_init st \<and>
    range_fails env dim st"
  then obtain st1 where b: "scan_body env dim st = Goto_error st1"
    "st_callback st1 = st_callback st"
    using range_fails_body by blast
  from a have "scan_loop env dim st0 = scan_loop env dim st" by (simp add: scan_reach_loop)
  also from a b have "\<dots> = Some (- 1, st1)" by (simp add: scan_loop_unfold loop_from_def)
  finally show "isl_basic_set_scan env (Some b) callback = Some (- 1, st_callback st)"
    using a b by (simp add: isl_basic_set_scan_def)
next
  show "\<exists>r. isl_basic_set_scan env bset callback = Some r"
    by (rule isl_basic_set_scan_returns)
qed

lemma unbounded_setup:
  "scan_setup unbounded_env [(0, 1)] (User collect []) =
     Some \<lparr>st_tab = \<lparr>box = [(0, 1)], eqs = [], basis = Some [[1, 0], [0, 1]]\<rparr>,
           st_B = [[1, 0], [0, 1]], st_min = [0], st_max = [0], st_snap = [0],
           st_level = 0, st_init = True, st_callback = User collect []\<rparr>"
  by (simp add: scan_setup_def unbounded_env_def box_env_def unit_mat_def Let_def)

theorem scan_aborts_on_lp_failure_witness:
  "isl_basic_set_scan unbounded_env (Some [(0, 1)]) (User collect []) =
     Some (- 1, User collect [])"
proof -
  let ?st0 = "\<lparr>st_tab = \<lparr>box = [(0, 1)], eqs = [], basis = Some [[1, 0], [0, 1]]\<rparr>,
           st_B = [[1, 0], [0, 1]], st_min = [0], st_max = [0], st_snap = [0::nat],
           st_level = 0, st_init = True, st_callback = User collect []\<rparr>"
  have f: "range_fails unbounded_env 1 ?st0"
    by (simp add: range_fails_def lp_failed_def unbounded_env_def)
  have d: "isl_basic_set_total_dim unbounded_env [(0, 1)] = 1"
    by (simp add: unbounded_env_def box_env_def)
  have r: "scan_reach unbounded_env 1 ?st0 ?st0" by (rule scan_reach.here)
  from scan_aborts_on_lp_failure
         [of ?st0 unbounded_env 1 "[(0, 1)]" "User collect []" ?st0, THEN conjunct2, THEN conjunct1]
       unbounded_setup f d r
  show ?thesis by simp
qed


lemma scan_0D_counter:
  assumes "counter_of cb = Some c"
  shows "\<exists>c'. counter_of (snd (scan_0D env cb)) = Some c' \<and> max_c c' = max_c c"
  using assms callback_add_counter [OF assms]
  by (auto simp: scan_0D_def)

lemma isl_basic_set_scan_counter:
  assumes "isl_basic_set_scan env bset cb = Some (r, cb')" and "counter_of cb = Some c"
  shows "\<exists>c'. counter_of cb' = Some c' \<and> max_c c' = max_c c"
proof (cases bset)
  case None
  with assms show ?thesis by (simp add: isl_basic_set_scan_def)
next
  case (Some b)
  show ?thesis
  proof (cases "isl_basic_set_total_dim env b = 0")
    case True
    with Some assms(1) have "scan_0D env cb = (r, cb')" by (simp add: isl_basic_set_scan_def)
    with scan_0D_counter [OF assms(2), of env] show ?thesis by simp
  next
    case False
    show ?thesis
    proof (cases "scan_setup env b cb")
      case None
      with Some False assms show ?thesis by (simp add: isl_basic_set_scan_def)
    next
      case (Some st0)
      with False \<open>bset = Some b\<close> assms(1) obtain st' where
        l: "scan_loop env (isl_basic_set_total_dim env b) st0 = Some (r, st')"
        and cb': "cb' = st_callback st'"
        by (auto simp: isl_basic_set_scan_def)
      from scan_setup_inv [OF Some refl False] assms(2)
      have "counter_of (st_callback st0) = Some c" by simp
      from scan_loop_counter [OF l this] cb' show ?thesis by simp
    qed
  qed
qed

lemma scan_pieces_counter:
  assumes "scan_pieces env bs cb = Some (r, cb')" and "counter_of cb = Some c"
  shows "\<exists>c'. counter_of cb' = Some c' \<and> max_c c' = max_c c"
  using assms
proof (induction bs arbitrary: cb c)
  case Nil
  then show ?case by simp
next
  case (Cons b bs)
  from Cons.prems(1) obtain r1 cb1 where
    s: "isl_basic_set_scan env (isl_basic_set_copy env b) cb = Some (r1, cb1)"
    by (auto split: option.splits)
  from isl_basic_set_scan_counter [OF s Cons.prems(2)] obtain c1 where
    c1: "counter_of cb1 = Some c1" "max_c c1 = max_c c" by blast
  show ?case
  proof (cases "r1 < 0")
    case True
    with Cons.prems(1) s c1 show ?thesis by auto
  next
    case False
    with Cons.prems(1) s have "scan_pieces env bs cb1 = Some (r, cb')" by simp
    from Cons.IH [OF this c1(1)] c1(2) show ?thesis by simp
  qed
qed

lemma isl_set_scan_counter:
  assumes "isl_set_scan env senv sp cb = Some (r, cb')" and "counter_of cb = Some c"
  shows "\<exists>c'. counter_of cb' = Some c' \<and> max_c c' = max_c c"
  using assms scan_pieces_counter [of env _ cb r cb' c]
  by (auto simp: isl_set_scan_def split: option.splits)

lemma counter_of_Counter: "counter_of cb = Some c \<longleftrightarrow> cb = Counter c"
  by (cases cb) (auto simp: counter_of_def)

text \<open>
  Claim C3.  When the underlying scan returns a negative value, each of the three counting
  functions returns \<open>-1\<close> and leaves \<^verbatim>\<open>*count\<close> as it was if the accumulated count is
  strictly below the bound, and otherwise returns \<open>0\<close> and stores the accumulated count.
  For \<^verbatim>\<open>isl_set_count\<close> the bound is \<^verbatim>\<open>ctx->zero\<close>.
\<close>

theorem count_error_propagation:
  "(isl_basic_set_scan env (isl_basic_set_copy env b) (Counter \<lparr>count = 0, max_c = cap\<rparr>)
      = Some (r, cb :: unit isl_scan_callback) \<and> r < 0 \<longrightarrow>
      (\<exists>cnt. cb = Counter cnt \<and> max_c cnt = cap \<and>
         isl_basic_set_count_upto env (Some b) cap out =
           Some (if count cnt < cap then (- 1, out) else (0, count cnt)))) \<and>
   (isl_set_scan env senv (isl_set_copy senv s) (Counter \<lparr>count = 0, max_c = cap\<rparr>)
      = Some (r, cb :: unit isl_scan_callback) \<and> r < 0 \<longrightarrow>
      (\<exists>cnt. cb = Counter cnt \<and> max_c cnt = cap \<and>
         isl_set_count_upto env senv (Some s) cap out =
           Some (if count cnt < cap then (- 1, out) else (0, count cnt)))) \<and>
   (isl_set_scan env senv (isl_set_copy senv s) (Counter \<lparr>count = 0, max_c = ctx_zero env\<rparr>)
      = Some (r, cb) \<and> r < 0 \<longrightarrow>
      (\<exists>cnt. cb = Counter cnt \<and> max_c cnt = ctx_zero env \<and>
         isl_set_count env senv (Some s) out =
           Some (if count cnt < ctx_zero env then (- 1, out) else (0, count cnt))))"
proof (intro conjI impI)
  assume a: "isl_basic_set_scan env (isl_basic_set_copy env b) (Counter \<lparr>count = 0, max_c = cap\<rparr>)
      = Some (r, cb) \<and> r < 0"
  then have s: "isl_basic_set_scan env (isl_basic_set_copy env b)
                  (Counter \<lparr>count = 0, max_c = cap\<rparr>) = Some (r, cb)" by simp
  from isl_basic_set_scan_counter [OF s, of "\<lparr>count = 0, max_c = cap\<rparr>"]
  obtain cnt where c: "counter_of cb = Some cnt" "max_c cnt = cap"
    by (auto simp: counter_of_def)
  from c(1) have cb: "cb = Counter cnt" by (simp add: counter_of_Counter)
  from a have "isl_basic_set_count_upto env (Some b) cap out =
           Some (if count cnt < cap then (- 1, out) else (0, count cnt))"
    unfolding isl_basic_set_count_upto_def count_result_def
    by (simp add: s cb counter_of_def c(2))
  with cb c(2) show "\<exists>cnt. cb = Counter cnt \<and> max_c cnt = cap \<and>
         isl_basic_set_count_upto env (Some b) cap out =
           Some (if count cnt < cap then (- 1, out) else (0, count cnt))"
    by blast
next
  assume a: "isl_set_scan env senv (isl_set_copy senv s) (Counter \<lparr>count = 0, max_c = cap\<rparr>)
      = Some (r, cb) \<and> r < 0"
  then have s: "isl_set_scan env senv (isl_set_copy senv s)
                  (Counter \<lparr>count = 0, max_c = cap\<rparr>) = Some (r, cb)" by simp
  from isl_set_scan_counter [OF s, of "\<lparr>count = 0, max_c = cap\<rparr>"]
  obtain cnt where c: "counter_of cb = Some cnt" "max_c cnt = cap"
    by (auto simp: counter_of_def)
  from c(1) have cb: "cb = Counter cnt" by (simp add: counter_of_Counter)
  from a have "isl_set_count_upto env senv (Some s) cap out =
           Some (if count cnt < cap then (- 1, out) else (0, count cnt))"
    unfolding isl_set_count_upto_def count_result_def
    by (simp add: s cb counter_of_def c(2))
  with cb c(2) show "\<exists>cnt. cb = Counter cnt \<and> max_c cnt = cap \<and>
         isl_set_count_upto env senv (Some s) cap out =
           Some (if count cnt < cap then (- 1, out) else (0, count cnt))"
    by blast
next
  assume a: "isl_set_scan env senv (isl_set_copy senv s)
               (Counter \<lparr>count = 0, max_c = ctx_zero env\<rparr>) = Some (r, cb) \<and> r < 0"
  then have s: "isl_set_scan env senv (isl_set_copy senv s)
                  (Counter \<lparr>count = 0, max_c = ctx_zero env\<rparr>) = Some (r, cb)" by simp
  from isl_set_scan_counter [OF s, of "\<lparr>count = 0, max_c = ctx_zero env\<rparr>"]
  obtain cnt where c: "counter_of cb = Some cnt" "max_c cnt = ctx_zero env"
    by (auto simp: counter_of_def)
  from c(1) have cb: "cb = Counter cnt" by (simp add: counter_of_Counter)
  from a have "isl_set_count env senv (Some s) out =
           Some (if count cnt < ctx_zero env then (- 1, out) else (0, count cnt))"
    unfolding isl_set_count_def isl_set_count_upto_def count_result_def
    by (simp add: s cb counter_of_def c(2))
  with cb c(2) show "\<exists>cnt. cb = Counter cnt \<and> max_c cnt = ctx_zero env \<and>
         isl_set_count env senv (Some s) out =
           Some (if count cnt < ctx_zero env then (- 1, out) else (0, count cnt))"
    by blast
qed

lemma counted_scan:
  assumes "map_option (\<lambda>(r, cb). (r, counter_of cb)) res = Some (r, Some c)"
  shows "res = Some (r, Counter c)"
  using assms by (auto simp: counter_of_Counter)

lemma box_scan_cap4:
  "isl_basic_set_scan box_env (isl_basic_set_copy box_env [(0, 1), (0, 2)])
     (Counter \<lparr>count = 0, max_c = 4\<rparr> :: unit isl_scan_callback) =
   Some (- 1, Counter \<lparr>count = 4, max_c = 4\<rparr>)"
  by (rule counted_scan) code_simp

lemma unbounded_scan_cap4:
  "isl_basic_set_scan unbounded_env (isl_basic_set_copy unbounded_env [(0, 1), (0, 2)])
     (Counter \<lparr>count = 0, max_c = 4\<rparr> :: unit isl_scan_callback) =
   Some (- 1, Counter \<lparr>count = 0, max_c = 4\<rparr>)"
  by (rule counted_scan) code_simp

theorem count_error_propagation_witness:
  "isl_basic_set_count_upto box_env (Some [(0, 1), (0, 2)]) 4 77 = Some (0, 4) \<and>
   isl_basic_set_count_upto unbounded_env (Some [(0, 1), (0, 2)]) 4 77 = Some (- 1, 77)"
proof -
  from count_error_propagation
          [of box_env "[(0, 1), (0, 2)]" 4 "- 1" "Counter \<lparr>count = 4, max_c = 4\<rparr>" 77,
           THEN conjunct1] box_scan_cap4
  have 1: "isl_basic_set_count_upto box_env (Some [(0, 1), (0, 2)]) 4 77 = Some (0, 4)"
    by simp
  from count_error_propagation
          [of unbounded_env "[(0, 1), (0, 2)]" 4 "- 1" "Counter \<lparr>count = 0, max_c = 4\<rparr>" 77,
           THEN conjunct1] unbounded_scan_cap4
  have 2: "isl_basic_set_count_upto unbounded_env (Some [(0, 1), (0, 2)]) 4 77 = Some (- 1, 77)"
    by simp
  from 1 2 show ?thesis by simp
qed


text \<open>
  Claim C6, as amended.  For a basic set of total dimension \<open>0\<close>, \<^verbatim>\<open>isl_basic_set_scan\<close>
  allocates the one-element vector \<open>[1]\<close> and, if the allocation succeeds, hands it to the
  callback once and returns what the callback returns; if the allocation fails it returns
  \<open>-1\<close> and the callback is not called.  Neither case touches the tableau: the result is
  determined by the allocator and the callback alone.
\<close>

theorem scan_0D_one_sample:
  assumes "isl_basic_set_total_dim env b = 0"
  shows "isl_basic_set_scan env (Some b) callback =
           Some (if alloc_ok env Alloc_sample then callback_add callback [1]
                 else (- 1, callback))"
  using assms by (simp add: isl_basic_set_scan_def scan_0D_def)

theorem scan_0D_one_sample_witness:
  "isl_basic_set_total_dim box_env [] = 0 \<and>
   isl_basic_set_scan box_env (Some []) (User collect []) = Some (0, User collect [[1]])"
proof -
  have d: "isl_basic_set_total_dim box_env [] = 0" by (simp add: box_env_def)
  from scan_0D_one_sample [OF d, of "User collect []"] d
  show ?thesis by (simp add: box_env_def callback_add_def collect_def)
qed

text \<open>
  The claim as stated, that every basic set of total dimension \<open>0\<close> yields exactly one
  sample, fails when the allocation of the sample fails: the scan then returns \<open>-1\<close> and
  the collecting callback has received nothing, whereas one sample \<open>[1]\<close> would have left
  it with \<open>[[1]]\<close>.
\<close>

theorem scan_0D_counterexample:
  "isl_basic_set_total_dim nomem_env [] = 0 \<and>
   isl_basic_set_scan nomem_env (Some []) (User collect []) = Some (- 1, User collect []) \<and>
   callback_add (User collect []) [1] = (0, User collect [[1]]) \<and>
   isl_basic_set_scan nomem_env (Some []) (User collect []) \<noteq>
     Some (callback_add (User collect []) [1])"
  by (simp add: isl_basic_set_scan_def scan_0D_def nomem_env_def box_env_def callback_add_def
      collect_def)


section \<open>Counting with and without a bound\<close>



lemma uncap_fields [simp]:
  "st_level (uncap st) = st_level st" "st_min (uncap st) = st_min st"
  "st_max (uncap st) = st_max st" "st_init (uncap st) = st_init st"
  "st_tab (uncap st) = st_tab st" "st_B (uncap st) = st_B st" "st_snap (uncap st) = st_snap st"
  "st_callback (uncap st) = uncap_cb (st_callback st)"
  by (simp_all add: uncap_def)

lemma uncap_update_cb: "uncap (st\<lparr>st_callback := cb\<rparr>) = (uncap st)\<lparr>st_callback := uncap_cb cb\<rparr>"
  by (simp add: uncap_def)

lemma scan_backtrack_cbs:
  "st_callback (flow_state (scan_backtrack env st)) = st_callback st"
  by (rule scan_backtrack_callback)


















































lemma agree_callback_a [simp]:
  "agree \<alpha> \<beta> dim nm ns (a\<lparr>st_callback := c\<rparr>) b = agree \<alpha> \<beta> dim nm ns a b"
  by (simp add: agree_def)



















lemma scan_body_box4:
  "scan_body box_env 1 box4_state =
     Continue (box4_state\<lparr>st_max := [3], st_level := - 1, st_init := False,
                          st_callback := Counter \<lparr>count = 4, max_c = 0\<rparr>\<rparr>)"
proof -
  have "case scan_body box_env 1 box4_state of
          Goto_error s \<Rightarrow> False
        | Continue s \<Rightarrow>
            st_tab s = st_tab box4_state \<and> st_B s = st_B box4_state \<and>
            st_min s = [0] \<and> st_max s = [3] \<and> st_snap s = [0] \<and> st_level s = - 1 \<and>
            \<not> st_init s \<and> counter_of (st_callback s) = Some \<lparr>count = 4, max_c = 0\<rparr>"
    by code_simp
  then show ?thesis
    by (cases "scan_body box_env 1 box4_state")
       (auto simp: box4_state_def counter_of_Counter intro: scan_state.equality)
qed






end
